theory Spec2Isabelle
  imports Complex_Main "HOL-Library.Code_Target_Numeral" "HOL-Library.Power_By_Squaring"
begin

section \<open>JavaScript strings and numbers\<close>

text \<open>
  A JavaScript string is modelled by the list of its code units, for code units in the
  range U+0000..U+00FF (one \<^typ>\<open>char\<close> each). The file handed to the route is
  modelled by the text that \<^verbatim>\<open>iconv.decode(buf, "utf16-le")\<close> returns.
\<close>

definition cu :: "char \<Rightarrow> nat" where
  "cu c = of_char c"

text \<open>White space and line terminators of \<^verbatim>\<open>String.prototype.trim\<close> and of the
  regular-expression class \<^verbatim>\<open>\s\<close>: TAB, LF, VT, FF, CR, SP, NBSP.\<close>

definition isSpace :: "char \<Rightarrow> bool" where
  "isSpace c = (cu c = 9 \<or> cu c = 10 \<or> cu c = 11 \<or> cu c = 12 \<or> cu c = 13 \<or> cu c = 32 \<or> cu c = 160)"

text \<open>The class \<^verbatim>\<open>\d\<close>: the ten ASCII digits.\<close>

definition isDigit :: "char \<Rightarrow> bool" where
  "isDigit c = (48 \<le> cu c \<and> cu c \<le> 57)"

definition trim :: "string \<Rightarrow> string" where
  "trim s = rev (dropWhile isSpace (rev (dropWhile isSpace s)))"

definition lowerChar :: "char \<Rightarrow> char" where
  "lowerChar c =
     (if (65 \<le> cu c \<and> cu c \<le> 90) \<or> (192 \<le> cu c \<and> cu c \<le> 222 \<and> cu c \<noteq> 215)
      then char_of (cu c + 32) else c)"

definition toLowerCase :: "string \<Rightarrow> string" where
  "toLowerCase s = map lowerChar s"

text \<open>
  \<^verbatim>\<open>toUpperCase\<close>: U+00DF becomes the two letters SS; the upper-case forms of
  U+00B5 and U+00FF lie outside the modelled range and the two are kept as they are.
\<close>

definition upperChar :: "char \<Rightarrow> string" where
  "upperChar c =
     (if (97 \<le> cu c \<and> cu c \<le> 122) \<or> (224 \<le> cu c \<and> cu c \<le> 254 \<and> cu c \<noteq> 247)
      then [char_of (cu c - 32)]
      else if cu c = 223 then ''SS'' else [c])"

definition toUpperCase :: "string \<Rightarrow> string" where
  "toUpperCase s = concat (map upperChar s)"

fun startsWith :: "string \<Rightarrow> string \<Rightarrow> bool" where
  "startsWith s [] = True"
| "startsWith [] (p # ps) = False"
| "startsWith (c # cs) (p # ps) = (c = p \<and> startsWith cs ps)"

definition endsWith :: "string \<Rightarrow> string \<Rightarrow> bool" where
  "endsWith s p = startsWith (rev s) (rev p)"

fun includesStr :: "string \<Rightarrow> string \<Rightarrow> bool" where
  "includesStr [] p = (p = [])"
| "includesStr (c # cs) p = (startsWith (c # cs) p \<or> includesStr cs p)"

text \<open>\<^verbatim>\<open>s.split(sep)\<close> for a one-character separator.\<close>

fun split :: "char \<Rightarrow> string \<Rightarrow> string list" where
  "split sep [] = [[]]"
| "split sep (c # cs) =
     (if c = sep then [] # split sep cs
      else (case split sep cs of p # ps \<Rightarrow> (c # p) # ps | [] \<Rightarrow> [[c]]))"

text \<open>\<^verbatim>\<open>text.split(/\r?\n/)\<close>: a line ends at LF, and a CR right before that LF
  belongs to the separator.\<close>

definition dropCR :: "string \<Rightarrow> string" where
  "dropCR l = (if l \<noteq> [] \<and> last l = CHR 0x0D then butlast l else l)"

definition splitLines :: "string \<Rightarrow> string list" where
  "splitLines t = (let ps = split (CHR 0x0A) t in map dropCR (butlast ps) @ [last ps])"

subsection \<open>Numbers\<close>

text \<open>
  A JavaScript number is NaN, an infinity or a finite IEEE 754 double. A finite double is
  kept as the rational number it denotes, the two zeros as the one value \<open>0\<close>. Every
  conversion and every arithmetic operation rounds its exact result to the nearest double,
  a tie to the even significand (\<open>toDouble\<close>): 53 significant bits, exponents from \<open>-1022\<close>
  to \<open>1023\<close>, gradual underflow in steps of \<open>2^-1074\<close>, overflow to an infinity.
\<close>

datatype number = NaN | PosInfinity | NegInfinity | Num rat

text \<open>The powers \<open>b^n\<close> of an integer, by repeated squaring, and \<open>2^e\<close> for an integer
  \<open>e\<close>.\<close>

definition ipow :: "int \<Rightarrow> nat \<Rightarrow> int" where
  "ipow b n = efficient_funpow (*) 1 b n"

definition pow2 :: "int \<Rightarrow> rat" where
  "pow2 e = (if 0 \<le> e then of_int (ipow 2 (nat e)) else 1 / of_int (ipow 2 (nat (- e))))"

text \<open>The number of binary digits of a positive integer.\<close>

function bits :: "int \<Rightarrow> int" where
  "bits n = (if n \<le> 0 then 0 else 1 + bits (n div 2))"
  by pat_completeness auto
termination
  by (relation "measure (\<lambda>n. nat n)") auto

declare bits.simps [simp del]

text \<open>For \<open>a > 0\<close>, the exponent \<open>e\<close> with \<open>2^e \<le> a < 2^(e+1)\<close>: the quotient of a
  numerator of \<open>i\<close> bits and a denominator of \<open>j\<close> bits lies between \<open>2^(i-j-1)\<close> and
  \<open>2^(i-j+1)\<close>.\<close>

definition binade :: "rat \<Rightarrow> int" where
  "binade a =
     (let e = bits (fst (quotient_of a)) - bits (snd (quotient_of a))
      in if pow2 e \<le> a then e else e - 1)"

definition roundHalfEven :: "rat \<Rightarrow> int" where
  "roundHalfEven m =
     (let f = \<lfloor>m\<rfloor>; r = m - of_int f
      in if r < 1 / 2 then f else if 1 / 2 < r then f + 1 else if even f then f else f + 1)"

text \<open>
  The nearest double: \<open>u\<close> is the spacing of the doubles around \<open>a\<close>, \<open>n\<close> the
  significand as an integer. The result \<open>n * u\<close> reaches \<open>2^1024\<close>, and overflows,
  exactly when \<open>e\<close> is above 1023 or \<open>e\<close> is 1023 and \<open>n\<close> has been rounded up to
  \<open>2^53\<close>.
\<close>

definition toDouble :: "rat \<Rightarrow> number" where
  "toDouble x =
     (if x = 0 then Num 0
      else (let a = \<bar>x\<bar>;
                e = max (binade a) (- 1022);
                u = pow2 (e - 52);
                n = roundHalfEven (a / u)
            in if 1024 \<le> e \<or> (e = 1023 \<and> ipow 2 53 \<le> n)
               then (if x < 0 then NegInfinity else PosInfinity)
               else Num (if x < 0 then - (of_int n * u) else of_int n * u)))"

text \<open>The operators \<^verbatim>\<open>+\<close>, \<^verbatim>\<open>*\<close>, \<^verbatim>\<open>/\<close> and \<^verbatim>\<open>>\<close> on numbers.\<close>

fun jsAdd :: "number \<Rightarrow> number \<Rightarrow> number" where
  "jsAdd NaN b = NaN"
| "jsAdd a NaN = NaN"
| "jsAdd PosInfinity NegInfinity = NaN"
| "jsAdd NegInfinity PosInfinity = NaN"
| "jsAdd PosInfinity b = PosInfinity"
| "jsAdd NegInfinity b = NegInfinity"
| "jsAdd a PosInfinity = PosInfinity"
| "jsAdd a NegInfinity = NegInfinity"
| "jsAdd (Num x) (Num y) = toDouble (x + y)"

definition signedInfinity :: "bool \<Rightarrow> number" where
  "signedInfinity negative = (if negative then NegInfinity else PosInfinity)"

fun jsMul :: "number \<Rightarrow> number \<Rightarrow> number" where
  "jsMul NaN b = NaN"
| "jsMul a NaN = NaN"
| "jsMul PosInfinity PosInfinity = PosInfinity"
| "jsMul PosInfinity NegInfinity = NegInfinity"
| "jsMul NegInfinity PosInfinity = NegInfinity"
| "jsMul NegInfinity NegInfinity = PosInfinity"
| "jsMul PosInfinity (Num y) = (if y = 0 then NaN else signedInfinity (y < 0))"
| "jsMul NegInfinity (Num y) = (if y = 0 then NaN else signedInfinity (0 < y))"
| "jsMul (Num x) PosInfinity = (if x = 0 then NaN else signedInfinity (x < 0))"
| "jsMul (Num x) NegInfinity = (if x = 0 then NaN else signedInfinity (0 < x))"
| "jsMul (Num x) (Num y) = toDouble (x * y)"

fun jsDiv :: "number \<Rightarrow> number \<Rightarrow> number" where
  "jsDiv NaN b = NaN"
| "jsDiv a NaN = NaN"
| "jsDiv PosInfinity (Num y) = signedInfinity (y < 0)"
| "jsDiv NegInfinity (Num y) = signedInfinity (0 \<le> y)"
| "jsDiv (Num x) (Num y) =
     (if y = 0 then (if x = 0 then NaN else signedInfinity (x < 0)) else toDouble (x / y))"
| "jsDiv (Num x) b = Num 0"
| "jsDiv a b = NaN"

fun jsGreater :: "number \<Rightarrow> number \<Rightarrow> bool" where
  "jsGreater NaN b = False"
| "jsGreater a NaN = False"
| "jsGreater PosInfinity PosInfinity = False"
| "jsGreater PosInfinity b = True"
| "jsGreater a PosInfinity = False"
| "jsGreater NegInfinity b = False"
| "jsGreater a NegInfinity = True"
| "jsGreater (Num x) (Num y) = (y < x)"

definition digitVal :: "char \<Rightarrow> nat" where
  "digitVal c = cu c - 48"

text \<open>The mathematical value of a string of decimal digits (\<open>0\<close> for the empty one).\<close>

definition decimalValue :: "string \<Rightarrow> nat" where
  "decimalValue ds = foldl (\<lambda>a c. 10 * a + digitVal c) 0 ds"

text \<open>\<^verbatim>\<open>Math.round\<close> rounds to the nearest integer, a half towards \<open>+\<infinity>\<close>. It is
  exact: a double of magnitude \<open>2^52\<close> or more is an integer, and below that the nearest
  integer is a double.\<close>

definition roundHalfUp :: "rat \<Rightarrow> rat" where
  "roundHalfUp q = of_int \<lfloor>q + 1 / 2\<rfloor>"

definition Math_round :: "number \<Rightarrow> number" where
  "Math_round n = (case n of Num q \<Rightarrow> Num (roundHalfUp q) | _ \<Rightarrow> n)"

definition hexVal :: "char \<Rightarrow> nat option" where
  "hexVal c =
     (if isDigit c then Some (cu c - 48)
      else if 97 \<le> cu c \<and> cu c \<le> 102 then Some (cu c - 87)
      else if 65 \<le> cu c \<and> cu c \<le> 70 then Some (cu c - 55)
      else None)"

definition radixValue :: "nat \<Rightarrow> string \<Rightarrow> nat option" where
  "radixValue b ds =
     (if ds \<noteq> [] \<and> list_all (\<lambda>c. case hexVal c of Some d \<Rightarrow> d < b | None \<Rightarrow> False) ds
      then Some (foldl (\<lambda>a c. b * a + the (hexVal c)) 0 ds) else None)"

text \<open>\<^verbatim>\<open>NonDecimalIntegerLiteral\<close>: \<^verbatim>\<open>0x\<close>, \<^verbatim>\<open>0o\<close>, \<^verbatim>\<open>0b\<close> and their
  upper-case forms, without a sign.\<close>

definition nonDecimal :: "string \<Rightarrow> nat option" where
  "nonDecimal t =
     (case t of
        z # x # ds \<Rightarrow>
          (if z \<noteq> CHR ''0'' then None
           else if x = CHR ''x'' \<or> x = CHR ''X'' then radixValue 16 ds
           else if x = CHR ''o'' \<or> x = CHR ''O'' then radixValue 8 ds
           else if x = CHR ''b'' \<or> x = CHR ''B'' then radixValue 2 ds
           else None)
      | _ \<Rightarrow> None)"

text \<open>\<^verbatim>\<open>ExponentPart\<close>: \<^verbatim>\<open>e\<close> or \<^verbatim>\<open>E\<close>, an optional sign, at least one
  digit, up to the end of the string. The empty string is the absent exponent.\<close>

definition exponentPart :: "string \<Rightarrow> int option" where
  "exponentPart r =
     (case r of
        [] \<Rightarrow> Some 0
      | e # r1 \<Rightarrow>
          (if e \<noteq> CHR ''e'' \<and> e \<noteq> CHR ''E'' then None
           else (let neg = (r1 \<noteq> [] \<and> hd r1 = CHR ''-'');
                     r2 = (if r1 \<noteq> [] \<and> (hd r1 = CHR ''-'' \<or> hd r1 = CHR ''+'') then tl r1 else r1)
                 in if r2 \<noteq> [] \<and> list_all isDigit r2
                    then Some (if neg then - int (decimalValue r2) else int (decimalValue r2))
                    else None)))"

definition scale10 :: "rat \<Rightarrow> int \<Rightarrow> rat" where
  "scale10 q e =
     (if 0 \<le> e then q * of_int (ipow 10 (nat e)) else q / of_int (ipow 10 (nat (- e))))"

text \<open>\<^verbatim>\<open>StrUnsignedDecimalLiteral\<close>: \<^verbatim>\<open>Infinity\<close>, or digits with an optional
  fraction and exponent, at least one digit before or after the point.\<close>

definition unsignedDecimal :: "string \<Rightarrow> number" where
  "unsignedDecimal t =
     (if t = ''Infinity'' then PosInfinity
      else (let ip = takeWhile isDigit t;
                r1 = dropWhile isDigit t;
                dot = (r1 \<noteq> [] \<and> hd r1 = CHR ''.'');
                fp = (if dot then takeWhile isDigit (tl r1) else []);
                r2 = (if dot then dropWhile isDigit (tl r1) else r1)
            in if ip = [] \<and> fp = [] then NaN
               else (case exponentPart r2 of
                       None \<Rightarrow> NaN
                     | Some e \<Rightarrow>
                         toDouble (scale10 (of_nat (decimalValue ip)
                                            + of_nat (decimalValue fp) / of_int (ipow 10 (length fp))) e))))"

definition negate :: "number \<Rightarrow> number" where
  "negate n =
     (case n of NaN \<Rightarrow> NaN | PosInfinity \<Rightarrow> NegInfinity | NegInfinity \<Rightarrow> PosInfinity
      | Num q \<Rightarrow> Num (- q))"

text \<open>\<^verbatim>\<open>Number(s)\<close> for a string \<open>s\<close> (StringToNumber): the mathematical value of
  the literal, rounded to a double.\<close>

definition Number :: "string \<Rightarrow> number" where
  "Number s =
     (let t = trim s in
      if t = [] then Num 0
      else (case nonDecimal t of
              Some n \<Rightarrow> toDouble (of_nat n)
            | None \<Rightarrow>
                (if hd t = CHR ''-'' then negate (unsignedDecimal (tl t))
                 else if hd t = CHR ''+'' then unsignedDecimal (tl t)
                 else unsignedDecimal t)))"

section \<open>The duration parser\<close>

text \<open>\<^verbatim>\<open>v.match(/^(\d{1,2}):(\d{2}):(\d{2})$/)\<close>: the three captured groups.\<close>

definition hmsTail :: "string \<Rightarrow> (string \<times> string) option" where
  "hmsTail r =
     (if length r = 6 \<and> r ! 0 = CHR '':'' \<and> isDigit (r ! 1) \<and> isDigit (r ! 2)
         \<and> r ! 3 = CHR '':'' \<and> isDigit (r ! 4) \<and> isDigit (r ! 5)
      then Some (take 2 (drop 1 r), drop 4 r) else None)"

definition hmsMatch :: "string \<Rightarrow> (string \<times> string \<times> string) option" where
  "hmsMatch v =
     (let h = takeWhile isDigit v; r = dropWhile isDigit v in
      if length h = 1 \<or> length h = 2
      then (case hmsTail r of Some (m, s) \<Rightarrow> Some (h, m, s) | None \<Rightarrow> None)
      else None)"

text \<open>
  \<^verbatim>\<open>v.match(/(\d+)\s*h/i)\<close> and its siblings for \<open>m\<close> and \<open>s\<close>: the captured
  digits of the leftmost match. At a start position the greedy \<^verbatim>\<open>\d+\<close> and
  \<^verbatim>\<open>\s*\<close> take the longest runs, and giving characters back never helps, because the
  character after a shortened run is a digit or a space and not the unit letter.
\<close>

definition isUnit :: "char \<Rightarrow> char \<Rightarrow> bool" where
  "isUnit u c = (c = u \<or> c = char_of (cu u - 32))"

fun unitMatch :: "char \<Rightarrow> string \<Rightarrow> string option" where
  "unitMatch u [] = None"
| "unitMatch u (c # cs) =
     (let ds = takeWhile isDigit (c # cs);
          r = dropWhile isSpace (dropWhile isDigit (c # cs))
      in if ds \<noteq> [] \<and> r \<noteq> [] \<and> isUnit u (hd r) then Some ds else unitMatch u cs)"

text \<open>Lines 30 to 33: \<^verbatim>\<open>mins\<close> starts at 0 and each unit that matched adds its share.\<close>

fun addHours :: "number \<Rightarrow> string option \<Rightarrow> number" where
  "addHours mins None = mins"
| "addHours mins (Some d) = jsAdd mins (jsMul (Number d) (Num 60))"

fun addMinutes :: "number \<Rightarrow> string option \<Rightarrow> number" where
  "addMinutes mins None = mins"
| "addMinutes mins (Some d) = jsAdd mins (Number d)"

fun addSeconds :: "number \<Rightarrow> string option \<Rightarrow> number" where
  "addSeconds mins None = mins"
| "addSeconds mins (Some d) = jsAdd mins (jsDiv (Number d) (Num 60))"

definition unitSum :: "string \<Rightarrow> number" where
  "unitSum v =
     addSeconds
       (addMinutes (addHours (Num 0) (unitMatch (CHR ''h'') v)) (unitMatch (CHR ''m'') v))
       (unitMatch (CHR ''s'') v)"

text \<open>What one unit contributes: the integer before its letter, zero without a match.\<close>

definition unitValue :: "char \<Rightarrow> string \<Rightarrow> nat" where
  "unitValue u v = (case unitMatch u v of Some d \<Rightarrow> decimalValue d | None \<Rightarrow> 0)"

text \<open>Lines 19 to 22, for the three groups of the clock pattern.\<close>

fun clockMinutes :: "string \<times> string \<times> string \<Rightarrow> number" where
  "clockMinutes (hh, mm, ss) =
     Math_round (jsAdd (jsAdd (jsMul (Number hh) (Num 60)) (Number mm)) (jsDiv (Number ss) (Num 60)))"

text \<open>Lines 37 to 40.\<close>

fun roundOrNull :: "number \<Rightarrow> number option" where
  "roundOrNull NaN = None"
| "roundOrNull n = Some (Math_round n)"

definition numberOrNull :: "string \<Rightarrow> number option" where
  "numberOrNull v = roundOrNull (Number v)"

text \<open>Lines 35 to 40, for the sum \<^verbatim>\<open>mins\<close> of the units.\<close>

definition unitsOrNumber :: "string \<Rightarrow> number \<Rightarrow> number option" where
  "unitsOrNumber v mins =
     (if jsGreater mins (Num 0) then Some (Math_round mins) else numberOrNull v)"

text \<open>Lines 17 to 40, for the trimmed string and the match of the clock pattern.\<close>

fun parseTrimmed :: "string \<Rightarrow> (string \<times> string \<times> string) option \<Rightarrow> number option" where
  "parseTrimmed v (Some hms) = Some (clockMinutes hms)"
| "parseTrimmed v None = unitsOrNumber v (unitSum v)"

definition parseNonEmpty :: "string \<Rightarrow> number option" where
  "parseNonEmpty v = (if v = [] then None else parseTrimmed v (hmsMatch v))"

definition parseMinutes :: "string \<Rightarrow> number option" where
  "parseMinutes value = parseNonEmpty (trim value)"

section \<open>The runtime and the store\<close>

text \<open>
  What the route takes from its runtime is a parameter of the embedding: the time value
  of \<^verbatim>\<open>new Date(v)\<close> in milliseconds (\<open>None\<close> for an invalid date, whose
  \<^verbatim>\<open>getTime()\<close> is NaN), \<^verbatim>\<open>Date.prototype.toISOString\<close>, and the text of a
  number that is not an integer below \<open>10^21\<close>.
\<close>

record runtime =
  dateValue :: "string \<Rightarrow> int option"
  toISOString :: "int \<Rightarrow> string"
  fractionToString :: "rat \<Rightarrow> string"

function digitsOf :: "nat \<Rightarrow> string" where
  "digitsOf n = (if n < 10 then [char_of (48 + n)] else digitsOf (n div 10) @ [char_of (48 + n mod 10)])"
  by pat_completeness auto
termination
  by (relation "measure (\<lambda>n. n)") auto

declare digitsOf.simps [simp del]

text \<open>The text of a number in a template literal (\<^verbatim>\<open>Number::toString\<close>).\<close>

definition numberToString :: "runtime \<Rightarrow> number \<Rightarrow> string" where
  "numberToString env n =
     (case n of
        NaN \<Rightarrow> ''NaN''
      | PosInfinity \<Rightarrow> ''Infinity''
      | NegInfinity \<Rightarrow> ''-Infinity''
      | Num q \<Rightarrow>
          (if of_int \<lfloor>q\<rfloor> = q \<and> \<bar>q\<bar> < 10 ^ 21
           then (if q < 0 then ''-'' @ digitsOf (nat (- \<lfloor>q\<rfloor>)) else digitsOf (nat \<lfloor>q\<rfloor>))
           else fractionToString env q))"

text \<open>
  The tables of \<^verbatim>\<open>migration.sql\<close>. Each table is a map from the column of its unique
  index (Module.code, Session.sessionKey, Student.email, the pair of
  Attendance.sessionId and Attendance.studentId) to the row; identifiers of new rows are
  drawn from a counter. Store operations are taken to succeed: the \<^verbatim>\<open>catch\<close> branch
  of the route (status 500) is outside the embedding.
\<close>

record session =
  session_id :: nat
  sessionKey :: string
  moduleCode :: string
  meetingName :: "string option"
  startTime :: "int option"
  endTime :: "int option"
  durationMin :: "number option"
  intake :: string
  year :: number

record student =
  student_id :: nat
  email :: string
  name :: "string option"

record attendance =
  attendance_id :: nat
  sessionId :: nat
  studentId :: nat
  emailRaw :: string
  firstJoin :: "int option"
  lastLeave :: "int option"
  minutes :: "number option"
  role :: "string option"
  isEligible :: bool

record store =
  modules :: "string \<rightharpoonup> string"
  sessions :: "string \<rightharpoonup> session"
  students :: "string \<rightharpoonup> student"
  attendances :: "nat \<times> nat \<rightharpoonup> attendance"
  nextId :: nat

text \<open>\<^verbatim>\<open>prisma.module.upsert\<close> with an empty update.\<close>

definition module_upsert :: "string \<Rightarrow> store \<Rightarrow> store" where
  "module_upsert code st =
     (case modules st code of
        Some _ \<Rightarrow> st
      | None \<Rightarrow> st\<lparr>modules := (modules st)(code \<mapsto> code)\<rparr>)"

definition session_upsert ::
  "string \<Rightarrow> string \<Rightarrow> string option \<Rightarrow> int option \<Rightarrow> int option \<Rightarrow> number option \<Rightarrow> string
     \<Rightarrow> number \<Rightarrow> store \<Rightarrow> session \<times> store" where
  "session_upsert key mc title start end dur itk yr st =
     (case sessions st key of
        Some s \<Rightarrow>
          (let s' = s\<lparr>meetingName := title, startTime := start, endTime := end,
                      durationMin := dur, intake := itk, year := yr, moduleCode := mc\<rparr>
           in (s', st\<lparr>sessions := (sessions st)(key \<mapsto> s')\<rparr>))
      | None \<Rightarrow>
          (let s' = \<lparr>session_id = nextId st, sessionKey = key, moduleCode = mc,
                     meetingName = title, startTime = start, endTime = end,
                     durationMin = dur, intake = itk, year = yr\<rparr>
           in (s', st\<lparr>sessions := (sessions st)(key \<mapsto> s'), nextId := nextId st + 1\<rparr>)))"

text \<open>\<^verbatim>\<open>prisma.student.upsert\<close>: the update is \<^verbatim>\<open>{ name: name ?? undefined }\<close>,
  which leaves the stored name when the row has none.\<close>

definition student_upsert :: "string \<Rightarrow> string option \<Rightarrow> store \<Rightarrow> student \<times> store" where
  "student_upsert em nm st =
     (case students st em of
        Some s \<Rightarrow>
          (let s' = (case nm of Some n \<Rightarrow> s\<lparr>name := Some n\<rparr> | None \<Rightarrow> s)
           in (s', st\<lparr>students := (students st)(em \<mapsto> s')\<rparr>))
      | None \<Rightarrow>
          (let s' = \<lparr>student_id = nextId st, email = em, name = nm\<rparr>
           in (s', st\<lparr>students := (students st)(em \<mapsto> s'), nextId := nextId st + 1\<rparr>)))"

text \<open>The values one participant line yields (lines 231 to 252 of the route).\<close>

record participant =
  p_name :: "string option"
  p_emailRaw :: string
  p_email :: string
  p_studentEmail :: string
  p_isEligible :: bool
  p_firstJoin :: "int option"
  p_lastLeave :: "int option"
  p_minutes :: "number option"
  p_role :: "string option"

definition attendance_upsert :: "nat \<Rightarrow> nat \<Rightarrow> participant \<Rightarrow> store \<Rightarrow> store" where
  "attendance_upsert sid uid p st =
     (case attendances st (sid, uid) of
        Some a \<Rightarrow>
          st\<lparr>attendances := (attendances st)((sid, uid) \<mapsto>
               a\<lparr>emailRaw := p_emailRaw p, firstJoin := p_firstJoin p, lastLeave := p_lastLeave p,
                 minutes := p_minutes p, role := p_role p, isEligible := p_isEligible p\<rparr>)\<rparr>
      | None \<Rightarrow>
          st\<lparr>attendances := (attendances st)((sid, uid) \<mapsto>
               \<lparr>attendance_id = nextId st, sessionId = sid, studentId = uid,
                emailRaw = p_emailRaw p, firstJoin = p_firstJoin p, lastLeave = p_lastLeave p,
                minutes = p_minutes p, role = p_role p, isEligible = p_isEligible p\<rparr>),
             nextId := nextId st + 1\<rparr>)"

section \<open>The attendance import route\<close>

definition isWordChar :: "char \<Rightarrow> bool" where
  "isWordChar c =
     (isDigit c \<or> (65 \<le> cu c \<and> cu c \<le> 90) \<or> (97 \<le> cu c \<and> cu c \<le> 122) \<or> cu c = 95)"

definition isLetter :: "char \<Rightarrow> bool" where
  "isLetter c = ((65 \<le> cu c \<and> cu c \<le> 90) \<or> (97 \<le> cu c \<and> cu c \<le> 122))"

text \<open>\<^verbatim>\<open>/\b[A-Z]{2}\d{4}NU\b/i\<close> at the head of a string, the leading boundary apart.\<close>

definition codeHere :: "string \<Rightarrow> bool" where
  "codeHere s =
     (8 \<le> length s \<and> isLetter (s ! 0) \<and> isLetter (s ! 1) \<and> isDigit (s ! 2) \<and> isDigit (s ! 3)
      \<and> isDigit (s ! 4) \<and> isDigit (s ! 5) \<and> isUnit (CHR ''n'') (s ! 6) \<and> isUnit (CHR ''u'') (s ! 7)
      \<and> (length s = 8 \<or> \<not> isWordChar (s ! 8)))"

text \<open>The leftmost match; the flag says whether the character before is a word character.\<close>

fun findCode :: "bool \<Rightarrow> string \<Rightarrow> string option" where
  "findCode w [] = None"
| "findCode w (c # cs) =
     (if \<not> w \<and> codeHere (c # cs) then Some (take 8 (c # cs)) else findCode (isWordChar c) cs)"

definition parseModuleCodeFromFilename :: "string \<Rightarrow> string option" where
  "parseModuleCodeFromFilename nm = map_option toUpperCase (findCode False nm)"

definition parseDate :: "runtime \<Rightarrow> string \<Rightarrow> int option" where
  "parseDate env value = (let v = trim value in if v = [] then None else dateValue env v)"

text \<open>\<^verbatim>\<open>findIndex\<close>: \<open>None\<close> stands for \<open>-1\<close>.\<close>

definition findIndex :: "string list \<Rightarrow> (string \<Rightarrow> bool) \<Rightarrow> nat \<Rightarrow> nat option" where
  "findIndex lines predicate start = find (\<lambda>i. predicate (lines ! i)) [start ..< length lines]"

definition normIntake :: "string \<Rightarrow> string" where
  "normIntake v =
     (let s = toLowerCase (trim v) in
      if s = ''spring'' then ''Spring''
      else if s = ''summer'' then ''Summer''
      else if s = ''autumn'' \<or> s = ''fall'' then ''Autumn''
      else trim v)"

definition normModuleCode :: "string \<Rightarrow> string" where
  "normModuleCode v = toUpperCase (trim v)"

definition TAB :: char where
  "TAB = CHR 0x09"

definition participantsMarker :: string where
  "participantsMarker = ''2. Participants''"

text \<open>The summary loop (lines 117 to 126): it stops after the marker line.\<close>

fun summaryLoop :: "string list \<Rightarrow> (string \<rightharpoonup> string) \<Rightarrow> (string \<rightharpoonup> string)" where
  "summaryLoop [] summary = summary"
| "summaryLoop (line # rest) summary =
     (let parts = split TAB line;
          summary' =
            (if 2 \<le> length parts
             then (let key = trim (parts ! 0); val = trim (parts ! 1)
                   in if key \<noteq> [] \<and> val \<noteq> [] then summary(key \<mapsto> val) else summary)
             else summary)
      in if trim line = participantsMarker then summary' else summaryLoop rest summary')"

definition orEmpty :: "string option \<Rightarrow> string" where
  "orEmpty v = (case v of Some s \<Rightarrow> s | None \<Rightarrow> [])"

definition isoOrEmpty :: "runtime \<Rightarrow> int option \<Rightarrow> string" where
  "isoOrEmpty env d = (case d of Some t \<Rightarrow> toISOString env t | None \<Rightarrow> [])"

text \<open>The template literal of lines 138 to 141.\<close>

definition mkSessionKey ::
  "runtime \<Rightarrow> string \<Rightarrow> number \<Rightarrow> string \<Rightarrow> int option \<Rightarrow> int option \<Rightarrow> string option \<Rightarrow> string" where
  "mkSessionKey env itk yr mc start end title =
     toLowerCase (itk @ ''|'' @ numberToString env yr @ ''|'' @ mc @ ''|'' @ isoOrEmpty env start
                  @ ''|'' @ isoOrEmpty env end @ ''|'' @ orEmpty title)"

text \<open>\<^verbatim>\<open>/^3\.\s*In-Meeting Activities/i.test(l.trim())\<close>\<close>

definition isSection3 :: "string \<Rightarrow> bool" where
  "isSection3 l =
     (let t = trim l in
      startsWith t ''3.''
      \<and> startsWith (toLowerCase (dropWhile isSpace (drop 2 t))) ''in-meeting activities'')"

definition isHeader :: "string \<Rightarrow> bool" where
  "isHeader l =
     (startsWith l (''Name'' @ [TAB]) \<and> includesStr l ([TAB] @ ''Email'' @ [TAB])
      \<and> includesStr l ''In-Meeting Duration'')"

record columns =
  idxName :: "nat option"
  idxEmail :: "nat option"
  idxFirstJoin :: "nat option"
  idxLastLeave :: "nat option"
  idxDuration :: "nat option"
  idxRole :: "nat option"

definition colIndex :: "string list \<Rightarrow> string \<Rightarrow> nat option" where
  "colIndex header nm = findIndex header (\<lambda>h. h = nm) 0"

definition headerColumns :: "string \<Rightarrow> columns" where
  "headerColumns l =
     (let header = map trim (split TAB l) in
      \<lparr>idxName = colIndex header ''Name'', idxEmail = colIndex header ''Email'',
       idxFirstJoin = colIndex header ''First Join'', idxLastLeave = colIndex header ''Last Leave'',
       idxDuration = colIndex header ''In-Meeting Duration'', idxRole = colIndex header ''Role''\<rparr>)"

text \<open>\<^verbatim>\<open>parts[idx] ?? ""\<close> for a column that the header has.\<close>

definition part :: "string list \<Rightarrow> nat option \<Rightarrow> string" where
  "part parts idx =
     (case idx of Some j \<Rightarrow> (if j < length parts then parts ! j else []) | None \<Rightarrow> [])"

definition orNull :: "string \<Rightarrow> string option" where
  "orNull s = (if s = [] then None else Some s)"

definition studentSuffix :: string where
  "studentSuffix = ''@stu.nexteducationgroup.com''"

definition placeholderEmail :: "nat \<Rightarrow> string" where
  "placeholderEmail i = ''unknown-'' @ digitsOf i @ ''@invalid.local''"

text \<open>
  Lines 225 to 252: what line \<open>i\<close> of the window contributes, \<open>None\<close> for a line the
  loop skips (blank, or fewer than two fields).
\<close>

definition participantRow :: "runtime \<Rightarrow> columns \<Rightarrow> nat \<Rightarrow> string \<Rightarrow> participant option" where
  "participantRow env cols i line =
     (if trim line = [] then None
      else (let parts = split TAB line in
            if length parts < 2 then None
            else (let nm = orNull (trim (part parts (idxName cols)));
                      emailRaw = trim (part parts (idxEmail cols));
                      em = toLowerCase emailRaw
                  in Some \<lparr>p_name = nm, p_emailRaw = emailRaw, p_email = em,
                           p_studentEmail = (if em \<noteq> [] then em else placeholderEmail i),
                           p_isEligible = endsWith em studentSuffix,
                           p_firstJoin = (case idxFirstJoin cols of
                                            Some j \<Rightarrow> parseDate env (part parts (Some j))
                                          | None \<Rightarrow> None),
                           p_lastLeave = (case idxLastLeave cols of
                                            Some j \<Rightarrow> parseDate env (part parts (Some j))
                                          | None \<Rightarrow> None),
                           p_minutes = parseMinutes (part parts (idxDuration cols)),
                           p_role = (case idxRole cols of
                                       Some j \<Rightarrow> orNull (trim (part parts (Some j)))
                                     | None \<Rightarrow> None)\<rparr>)))"

record progress =
  store_of :: store
  rowsRead :: nat
  attendanceUpserted :: nat
  eligibleCount :: nat

text \<open>One turn of the loop of lines 224 to 272.\<close>

definition rowStep ::
  "runtime \<Rightarrow> nat \<Rightarrow> columns \<Rightarrow> string list \<Rightarrow> nat \<Rightarrow> progress \<Rightarrow> progress" where
  "rowStep env sid cols lines i pr =
     (case participantRow env cols i (lines ! i) of
        None \<Rightarrow> pr
      | Some p \<Rightarrow>
          (let (student, st1) = student_upsert (p_studentEmail p) (p_name p) (store_of pr);
               st2 = attendance_upsert sid (student_id student) p st1
           in \<lparr>store_of = st2, rowsRead = rowsRead pr + 1,
               attendanceUpserted = attendanceUpserted pr + 1,
               eligibleCount = (if p_isEligible p then eligibleCount pr + 1 else eligibleCount pr)\<rparr>))"

record upload =
  fileName :: string
  fileText :: string

text \<open>The form: a text field that is absent reads as the empty string; \<open>fileField\<close> is
  \<open>None\<close> when the form has no \<^verbatim>\<open>File\<close> under that name.\<close>

record request =
  intakeField :: "string option"
  yearField :: "string option"
  moduleCodeField :: "string option"
  fileField :: "upload option"

record ok_body =
  ok_moduleCode :: string
  ok_intake :: string
  ok_year :: number
  ok_sessionId :: nat
  ok_rowsRead :: nat
  ok_attendanceUpserted :: nat
  ok_eligibleCount :: nat
  ok_durationMin :: "number option"

datatype response = Failure nat string | Success ok_body

definition errIntakeYear :: string where
  "errIntakeYear = ''Missing or invalid intake/year. Please select Intake + Year.''"

definition errNoFile :: string where
  "errNoFile = ''No file uploaded''"

definition errModuleCode :: string where
  "errModuleCode = ''Missing Module Code. Please select a Module Code (or include it in the filename).''"

definition errSection2 :: string where
  "errSection2 = ''Could not find '' @ [CHR 0x27] @ ''2. Participants'' @ [CHR 0x27] @ '' section.''"

definition errHeader :: string where
  "errHeader = ''Could not find Participants table header for Section 2 (with ''
     @ [CHR 0x27] @ ''In-Meeting Duration'' @ [CHR 0x27] @ '').''"

definition errColumns :: string where
  "errColumns = ''Missing required columns in Section 2 (need Name, Email, In-Meeting Duration).''"

text \<open>Lines 116 to 163: the summary, the session key and the two upserts.\<close>

definition fileDuration :: "(string \<rightharpoonup> string) \<Rightarrow> number option" where
  "fileDuration summary =
     (case parseMinutes (orEmpty (summary ''Meeting duration'')) of
        Some n \<Rightarrow> Some n
      | None \<Rightarrow> parseMinutes (orEmpty (summary ''Duration'')))"


definition writeSession ::
  "runtime \<Rightarrow> string \<Rightarrow> number \<Rightarrow> string \<Rightarrow> string list \<Rightarrow> store \<Rightarrow> session \<times> store" where
  "writeSession env itk yr mc lines st =
     (let summary = summaryLoop lines Map.empty;
          title = summary ''Meeting title'';
          start = parseDate env (orEmpty (summary ''Start time''));
          end = parseDate env (orEmpty (summary ''End time''));
          dur = fileDuration summary;
          key = mkSessionKey env itk yr mc start end title;
          st1 = module_upsert mc st
      in session_upsert key mc title start end dur itk yr st1)"

text \<open>Lines 166 to 218: the window of Section 2, \<open>(headerIndex, section2End, columns)\<close>,
  or the message of the 400 response.\<close>

definition locateSection2 :: "string list \<Rightarrow> string + (nat \<times> nat \<times> columns)" where
  "locateSection2 lines =
     (case findIndex lines (\<lambda>l. trim l = participantsMarker) 0 of
        None \<Rightarrow> Inl errSection2
      | Some idxSection2 \<Rightarrow>
          (let idxSection3 = findIndex lines isSection3 (idxSection2 + 1);
               section2End = (case idxSection3 of None \<Rightarrow> length lines | Some j \<Rightarrow> j);
               headerIndex = findIndex lines isHeader (idxSection2 + 1)
           in (case headerIndex of
                 None \<Rightarrow> Inl errHeader
               | Some h \<Rightarrow>
                   (if section2End \<le> h then Inl errHeader
                    else (let cols = headerColumns (lines ! h) in
                          if idxName cols = None \<or> idxEmail cols = None \<or> idxDuration cols = None
                          then Inl errColumns
                          else Inr (h, section2End, cols))))))"

text \<open>Lines 166 to 285, given the session that was written and the window.\<close>

fun importRows ::
  "runtime \<Rightarrow> string \<Rightarrow> string \<Rightarrow> number \<Rightarrow> string list \<Rightarrow> session \<times> store
     \<Rightarrow> string + (nat \<times> nat \<times> columns) \<Rightarrow> response \<times> store" where
  "importRows env mc itk yr lines (session, st2) (Inl msg) = (Failure 400 msg, st2)"
| "importRows env mc itk yr lines (session, st2) (Inr (headerIndex, section2End, cols)) =
     (let pr = fold (rowStep env (session_id session) cols lines)
                 [headerIndex + 1 ..< section2End]
                 \<lparr>store_of = st2, rowsRead = 0, attendanceUpserted = 0, eligibleCount = 0\<rparr>
      in (Success \<lparr>ok_moduleCode = mc, ok_intake = itk, ok_year = yr,
                    ok_sessionId = session_id session, ok_rowsRead = rowsRead pr,
                    ok_attendanceUpserted = attendanceUpserted pr,
                    ok_eligibleCount = eligibleCount pr,
                    ok_durationMin = durationMin session\<rparr>,
          store_of pr))"

text \<open>Lines 111 to 285: the two upserts come first, the search for Section 2 after them.\<close>

definition importFile ::
  "runtime \<Rightarrow> string \<Rightarrow> number \<Rightarrow> string \<Rightarrow> string list \<Rightarrow> store \<Rightarrow> response \<times> store" where
  "importFile env itk yr mc lines st =
     importRows env mc itk yr lines (writeSession env itk yr mc lines st) (locateSection2 lines)"

text \<open>Lines 75 to 109: the form fields, then the file.\<close>

definition resolveModuleCode :: "string \<Rightarrow> string \<Rightarrow> string option" where
  "resolveModuleCode moduleFromFormRaw nm =
     (let moduleFromForm = normModuleCode moduleFromFormRaw;
          moduleFromFilename = parseModuleCodeFromFilename nm
      in if moduleFromForm \<noteq> [] then Some moduleFromForm else moduleFromFilename)"

definition POST :: "runtime \<Rightarrow> request \<Rightarrow> store \<Rightarrow> response \<times> store" where
  "POST env req st =
     (let itk = normIntake (orEmpty (intakeField req));
          yr = Number (orEmpty (yearField req))
      in if itk = [] \<or> yr = Num 0 \<or> yr = NaN then (Failure 400 errIntakeYear, st)
         else (case fileField req of
                 None \<Rightarrow> (Failure 400 errNoFile, st)
               | Some f \<Rightarrow>
                   (case resolveModuleCode (orEmpty (moduleCodeField req)) (fileName f) of
                      None \<Rightarrow> (Failure 400 errModuleCode, st)
                    | Some mc \<Rightarrow> importFile env itk yr mc (splitLines (fileText f)) st)))"

section \<open>Notions used in the statements\<close>

text \<open>The three unit letters of the duration parser.\<close>

definition unitLetter :: "char \<Rightarrow> bool" where
  "unitLetter u = (u = CHR ''h'' \<or> u = CHR ''m'' \<or> u = CHR ''s'')"

text \<open>A case-insensitive match with a word of lower-case ASCII letters: every character is
  the letter of the word at its place, or the capital of that letter.\<close>

definition matchesWord :: "string \<Rightarrow> string \<Rightarrow> bool" where
  "matchesWord s w = list_all2 (\<lambda>c d. c = d \<or> c = char_of (cu d - 32)) s w"

text \<open>A bare decimal number, without sign and exponent: digits, or digits with a point among
  them, at least one digit in all.\<close>

definition bareDecimal :: "string \<Rightarrow> bool" where
  "bareDecimal t =
     (let ip = takeWhile isDigit t; r = dropWhile isDigit t
      in if r = [] then ip \<noteq> []
         else hd r = CHR ''.'' \<and> list_all isDigit (tl r) \<and> (ip \<noteq> [] \<or> tl r \<noteq> []))"

text \<open>Sample data for the closed statements.\<close>

definition emptyStore :: store where
  "emptyStore = \<lparr>modules = Map.empty, sessions = Map.empty, students = Map.empty,
                  attendances = Map.empty, nextId = 0\<rparr>"

definition sampleRuntime :: runtime where
  "sampleRuntime =
     \<lparr>dateValue = (\<lambda>s. if s = ''2026-02-10T09:00:00Z'' then Some 1770714000000
                        else if s = ''2026-02-17T09:00:00Z'' then Some 1771318800000 else None),
      toISOString = (\<lambda>t. if t = 1770714000000 then ''2026-02-10T09:00:00.000Z''
                          else ''2026-02-17T09:00:00.000Z''),
      fractionToString = (\<lambda>q. ''2024.5'')\<rparr>"

definition NL :: string where
  "NL = [CHR 0x0A]"

definition sampleText :: string where
  "sampleText =
     ''Meeting title'' @ [TAB] @ ''Weekly Standup'' @ NL
     @ ''Start time'' @ [TAB] @ ''2026-02-10T09:00:00Z'' @ NL
     @ ''2. Participants'' @ NL
     @ ''Name'' @ [TAB] @ ''Email'' @ [TAB] @ ''In-Meeting Duration'' @ [TAB] @ ''Role'' @ NL
     @ ''Alice'' @ [TAB] @ ''Alice@STU.nexteducationgroup.com'' @ [TAB] @ ''45:00'' @ [TAB] @ ''Attendee'' @ NL
     @ ''Bob'' @ [TAB] @ [TAB] @ ''1h 2m'' @ [TAB] @ NL
     @ ''Eve'' @ [TAB] @ [TAB] @ ''12s'' @ [TAB] @ NL
     @ ''3. In-Meeting Activities'' @ NL
     @ ''Name'' @ [TAB] @ ''x''"

definition sampleRequest :: request where
  "sampleRequest =
     \<lparr>intakeField = Some ''fall'', yearField = Some ''2026'', moduleCodeField = None,
      fileField = Some \<lparr>fileName = ''attendance MN5070NU.csv'', fileText = sampleText\<rparr>\<rparr>"

definition summaryOnlyRequest :: request where
  "summaryOnlyRequest =
     \<lparr>intakeField = Some ''Spring'', yearField = Some ''2026'', moduleCodeField = Some ''mn5070nu'',
      fileField = Some \<lparr>fileName = ''notes.txt'',
                         fileText = ''Meeting title'' @ [TAB] @ ''Weekly Standup''\<rparr>\<rparr>"

definition duplicateText :: string where
  "duplicateText =
     ''2. Participants'' @ NL
     @ ''Name'' @ [TAB] @ ''Email'' @ [TAB] @ ''In-Meeting Duration'' @ NL
     @ ''Ann'' @ [TAB] @ ''ann@stu.nexteducationgroup.com'' @ [TAB] @ ''5m'' @ NL
     @ ''Ann B'' @ [TAB] @ ''ANN@stu.nexteducationgroup.com'' @ [TAB] @ ''7m''"

definition duplicateRequest :: request where
  "duplicateRequest =
     \<lparr>intakeField = Some ''Summer'', yearField = Some ''2026'', moduleCodeField = Some ''MN5070NU'',
      fileField = Some \<lparr>fileName = ''report.csv'', fileText = duplicateText\<rparr>\<rparr>"

text \<open>A line the loop counts: not blank, and at least two tab-separated fields.\<close>

definition countedLine :: "string \<Rightarrow> bool" where
  "countedLine l = (trim l \<noteq> [] \<and> 2 \<le> length (split TAB l))"

definition uploadLines :: "request \<Rightarrow> string list" where
  "uploadLines req = (case fileField req of Some f \<Rightarrow> splitLines (fileText f) | None \<Rightarrow> [])"




text \<open>What one counted line does to the store: the two upserts of lines 237 to 269.\<close>

definition writeRow :: "nat \<Rightarrow> participant \<Rightarrow> store \<Rightarrow> store" where
  "writeRow sid p st =
     attendance_upsert sid
       (student_id (fst (student_upsert (p_studentEmail p) (p_name p) st))) p
       (snd (student_upsert (p_studentEmail p) (p_name p) st))"

text \<open>The participant of line \<open>i\<close>, and the loop of lines 224 to 272 as it acts on the store.\<close>

definition rowsOf :: "runtime \<Rightarrow> columns \<Rightarrow> string list \<Rightarrow> nat \<Rightarrow> participant option" where
  "rowsOf env cols lines i = participantRow env cols i (lines ! i)"

definition runRows :: "nat \<Rightarrow> (nat \<Rightarrow> participant option) \<Rightarrow> nat list \<Rightarrow> store \<Rightarrow> store" where
  "runRows sid rows js st =
     fold (\<lambda>i s. case rows i of None \<Rightarrow> s | Some p \<Rightarrow> writeRow sid p s) js st"

text \<open>The update parts of the two row upserts.\<close>

definition setName :: "string option \<Rightarrow> student \<Rightarrow> student" where
  "setName nm s = (case nm of Some n \<Rightarrow> s\<lparr>name := Some n\<rparr> | None \<Rightarrow> s)"

definition setFields :: "participant \<Rightarrow> attendance \<Rightarrow> attendance" where
  "setFields p a =
     a\<lparr>emailRaw := p_emailRaw p, firstJoin := p_firstJoin p, lastLeave := p_lastLeave p,
       minutes := p_minutes p, role := p_role p, isEligible := p_isEligible p\<rparr>"

text \<open>The identifier of the student stored under an email.\<close>

definition idOf :: "store \<Rightarrow> string \<Rightarrow> nat" where
  "idOf st k = (case students st k of Some s \<Rightarrow> student_id s | None \<Rightarrow> 0)"

text \<open>The last name that the lines \<open>js\<close> give for an email, and the last of these lines
  whose attendance row has the key \<open>a\<close>, when \<open>f\<close> gives the identifier of each email.\<close>

fun lastName :: "(nat \<Rightarrow> participant option) \<Rightarrow> nat list \<Rightarrow> string \<Rightarrow> string option" where
  "lastName rows [] k = None"
| "lastName rows (i # js) k =
     (case lastName rows js k of
        Some n \<Rightarrow> Some n
      | None \<Rightarrow>
          (case rows i of
             Some p \<Rightarrow> (if p_studentEmail p = k then p_name p else None)
           | None \<Rightarrow> None))"

fun lastRow ::
  "nat \<Rightarrow> (string \<Rightarrow> nat) \<Rightarrow> (nat \<Rightarrow> participant option) \<Rightarrow> nat list \<Rightarrow> nat \<times> nat
     \<Rightarrow> participant option" where
  "lastRow sid f rows [] a = None"
| "lastRow sid f rows (i # js) a =
     (case lastRow sid f rows js a of
        Some p \<Rightarrow> Some p
      | None \<Rightarrow>
          (case rows i of
             Some p \<Rightarrow> (if (sid, f (p_studentEmail p)) = a then Some p else None)
           | None \<Rightarrow> None))"

text \<open>Every counted line of \<open>js\<close> has its Student and its Attendance row in the store.\<close>

definition covered :: "nat \<Rightarrow> (nat \<Rightarrow> participant option) \<Rightarrow> nat list \<Rightarrow> store \<Rightarrow> bool" where
  "covered sid rows js u =
     (\<forall>i \<in> set js. \<forall>p. rows i = Some p \<longrightarrow>
        students u (p_studentEmail p) \<noteq> None
        \<and> attendances u (sid, idOf u (p_studentEmail p)) \<noteq> None)"

text \<open>
  The primary key of Student: identifiers of stored students lie below the counter, and
  two emails never share one.
\<close>

definition students_ok :: "store \<Rightarrow> bool" where
  "students_ok st =
     ((\<forall>k s. students st k = Some s \<longrightarrow> student_id s < nextId st)
      \<and> (\<forall>k k' s s'. students st k = Some s \<longrightarrow> students st k' = Some s'
            \<longrightarrow> student_id s = student_id s' \<longrightarrow> k = k'))"


section \<open>Rounding to a double\<close>

lemma ipow_power: "ipow b n = b ^ n"
  by (simp add: ipow_def power_by_squaring)

lemma pow2_powi: "pow2 e = 2 powi e"
  by (simp add: pow2_def ipow_power power_int_def inverse_eq_divide power_one_over)

lemma pow2_pos: "0 < pow2 e"
  by (simp add: pow2_powi)

lemma pow2_add: "pow2 (a + b) = pow2 a * pow2 b"
  by (simp add: pow2_powi power_int_add)

lemma pow2_mono: "a \<le> b \<Longrightarrow> pow2 a \<le> pow2 b"
  by (simp add: pow2_powi power_int_increasing)

lemma pow2_strict_mono: "a < b \<Longrightarrow> pow2 a < pow2 b"
  by (simp add: pow2_powi power_int_strict_increasing)

lemma pow2_le_iff: "pow2 a \<le> pow2 b \<longleftrightarrow> a \<le> b"
  by (meson pow2_mono pow2_strict_mono leD leI)

lemma pow2_less_iff: "pow2 a < pow2 b \<longleftrightarrow> a < b"
  by (meson pow2_mono pow2_strict_mono leD leI)

lemma pow2_nat: "pow2 (int n) = 2 ^ n"
  by (simp add: pow2_powi)

lemma bits_nonneg: "0 \<le> bits n"
proof (induction n rule: bits.induct)
  case (1 n)
  then show ?case by (subst bits.simps) simp
qed

lemma bits_pos: "0 < n \<Longrightarrow> 1 \<le> bits n"
  using bits_nonneg [of "n div 2"] by (subst bits.simps) simp

lemma bits_int: "0 < n \<Longrightarrow> \<exists>k. bits n = int (Suc k) \<and> 2 ^ k \<le> n \<and> n < 2 ^ Suc k"
proof (induction n rule: bits.induct)
  case (1 n)
  show ?case
  proof (cases "n = 1")
    case True
    have "bits 1 = 1" by (simp add: bits.simps [of 1] bits.simps [of 0])
    with True show ?thesis by (intro exI [of _ 0]) simp
  next
    case False
    with "1.prems" have h: "0 < n div 2" by simp
    with "1.IH" "1.prems" obtain k where k: "bits (n div 2) = int (Suc k)"
      "2 ^ k \<le> n div 2" "n div 2 < 2 ^ Suc k" by auto
    define P :: int where "P = 2 ^ k"
    from k(2,3) have "P \<le> n div 2" "n div 2 < 2 * P" by (simp_all add: P_def)
    then have "2 * P \<le> n" "n < 2 * (2 * P)" by arith+
    then have "2 ^ Suc k \<le> n" "n < 2 ^ Suc (Suc k)" by (simp_all add: P_def)
    moreover have "bits n = int (Suc (Suc k))"
      using "1.prems" k(1) by (subst bits.simps) simp
    ultimately show ?thesis by blast
  qed
qed

lemma bits_bounds:
  assumes "0 < n"
  shows "pow2 (bits n - 1) \<le> of_int n" "of_int n < pow2 (bits n)"
proof -
  from bits_int [OF assms] obtain k where k: "bits n = int (Suc k)" "2 ^ k \<le> n" "n < 2 ^ Suc k"
    by blast
  have "(of_int (2 ^ k) :: rat) \<le> of_int n" "(of_int n :: rat) < of_int (2 ^ Suc k)"
    using k(2,3) by (simp_all only: of_int_le_iff of_int_less_iff)
  then have "(2::rat) ^ k \<le> of_int n" "(of_int n :: rat) < 2 ^ Suc k"
    by simp_all
  moreover have "bits n - 1 = int k" using k(1) by simp
  ultimately show "pow2 (bits n - 1) \<le> of_int n" "of_int n < pow2 (bits n)"
    by (simp_all only: k(1) pow2_nat)
qed

lemma binade_bounds:
  assumes "0 < a"
  shows "pow2 (binade a) \<le> a" "a < pow2 (binade a + 1)"
proof -
  obtain p q where pq: "quotient_of a = (p, q)" by (cases "quotient_of a") auto
  then have q: "0 < q" and a: "a = of_int p / of_int q"
    by (simp_all add: quotient_of_denom_pos quotient_of_div)
  with assms have p: "0 < p"
    by (simp add: zero_less_divide_iff)
  let ?e = "bits p - bits q"
  note bp = bits_bounds [OF p] and bq = bits_bounds [OF q]
  have qpos: "(0::rat) < of_int q" using q by simp
  have up: "a < pow2 (?e + 1)"
  proof -
    have "of_int p < pow2 (bits p)" by (rule bp(2))
    also have "pow2 (bits p) = pow2 (?e + 1) * pow2 (bits q - 1)"
      by (simp add: pow2_add [symmetric])
    also have "\<dots> \<le> pow2 (?e + 1) * of_int q"
      using bq(1) pow2_pos [of "?e + 1"] by (simp add: mult_left_mono)
    finally show ?thesis
      using qpos by (simp add: a pos_divide_less_eq)
  qed
  have low: "pow2 (?e - 1) < a"
  proof -
    have "pow2 (?e - 1) * of_int q < pow2 (?e - 1) * pow2 (bits q)"
      using bq(2) pow2_pos [of "?e - 1"] by (simp add: mult_strict_left_mono)
    also have "\<dots> = pow2 (bits p - 1)"
      by (simp add: pow2_add [symmetric])
    also have "\<dots> \<le> of_int p" by (rule bp(1))
    finally show ?thesis
      using qpos by (simp add: a pos_less_divide_eq)
  qed
  show "pow2 (binade a) \<le> a"
    using low by (auto simp: binade_def pq Let_def)
  show "a < pow2 (binade a + 1)"
    using up by (auto simp: binade_def pq Let_def not_le)
qed

lemma binade_unique:
  assumes "pow2 e \<le> a" "a < pow2 (e + 1)"
  shows "binade a = e"
proof -
  have "0 < a" using assms(1) pow2_pos [of e] by simp
  note b = binade_bounds [OF this]
  from b(1) assms(2) have "pow2 (binade a) < pow2 (e + 1)" by simp
  then have 1: "binade a \<le> e" by (simp add: pow2_less_iff)
  from assms(1) b(2) have "pow2 e < pow2 (binade a + 1)" by simp
  then have "e \<le> binade a" by (simp add: pow2_less_iff)
  with 1 show ?thesis by simp
qed

lemma roundHalfEven_error: "\<bar>of_int (roundHalfEven m) - m\<bar> \<le> 1 / 2"
proof -
  have "of_int \<lfloor>m\<rfloor> \<le> m" "m < of_int \<lfloor>m\<rfloor> + 1" by linarith+
  then show ?thesis
    by (auto simp: roundHalfEven_def Let_def)
qed

lemma roundHalfEven_int: "roundHalfEven (of_int n) = n"
  by (simp add: roundHalfEven_def)

lemma toDouble_positive:
  assumes "0 < a"
  shows "toDouble a =
           (let e = max (binade a) (- 1022); u = pow2 (e - 52); n = roundHalfEven (a / u)
            in if 1024 \<le> e \<or> (e = 1023 \<and> 2 ^ 53 \<le> n) then PosInfinity else Num (of_int n * u))"
proof -
  from assms have "a \<noteq> 0" "\<not> a < 0" "\<bar>a\<bar> = a" by simp_all
  then show ?thesis
    unfolding toDouble_def ipow_power Let_def by (simp only: if_False)
qed

text \<open>Below \<open>2^k\<close> the doubles are at most \<open>2^(k-53)\<close> apart, and the nearest one is at
  most half of that away.\<close>

lemma toDouble_error:
  assumes a: "0 < a" "a < pow2 k" and k: "- 1021 \<le> k" "k \<le> 1023"
  shows "\<exists>d. toDouble a = Num d \<and> \<bar>d - a\<bar> \<le> pow2 (k - 54) \<and> 0 \<le> d"
proof -
  define e where "e = max (binade a) (- 1022)"
  define u where "u = pow2 (e - 52)"
  define n where "n = roundHalfEven (a / u)"
  have upos: "0 < u" by (simp add: u_def pow2_pos)
  from binade_bounds(1) [OF a(1)] a(2) have "pow2 (binade a) < pow2 k" by simp
  then have "binade a < k" by (simp add: pow2_less_iff)
  with k have e: "e \<le> k - 1" "e \<le> 1022" by (simp_all add: e_def)
  have t: "toDouble a = Num (of_int n * u)"
    using e(2) by (simp add: toDouble_positive [OF a(1)] Let_def e_def [symmetric] u_def [symmetric]
        n_def [symmetric])
  have "\<bar>of_int n - a / u\<bar> \<le> 1 / 2"
    unfolding n_def by (rule roundHalfEven_error)
  then have "\<bar>of_int n - a / u\<bar> * u \<le> 1 / 2 * u"
    using upos by (simp add: mult_right_mono)
  moreover have "\<bar>of_int n - a / u\<bar> * u = \<bar>of_int n * u - a\<bar>"
  proof -
    have "(of_int n - a / u) * u = of_int n * u - a"
      using upos by (simp add: left_diff_distrib)
    moreover have "\<bar>(of_int n - a / u) * u\<bar> = \<bar>of_int n - a / u\<bar> * u"
      using upos by (simp add: abs_mult)
    ultimately show ?thesis by simp
  qed
  moreover have "1 / 2 * u = pow2 (e - 53)"
  proof -
    have "pow2 (e - 52) = pow2 (e - 53) * pow2 1" by (simp add: pow2_add [symmetric])
    then show ?thesis by (simp add: u_def pow2_powi)
  qed
  moreover have "pow2 (e - 53) \<le> pow2 (k - 54)"
    using e(1) by (simp add: pow2_le_iff)
  ultimately have err: "\<bar>of_int n * u - a\<bar> \<le> pow2 (k - 54)" by simp
  have "0 \<le> a / u" using a(1) upos by simp
  then have "0 \<le> n"
    by (auto simp: n_def roundHalfEven_def Let_def)
  then have "0 \<le> of_int n * u" using upos by simp
  with t err show ?thesis by blast
qed

text \<open>A number with a significand below \<open>2^53\<close> is a double.\<close>

lemma toDouble_exact:
  assumes a: "0 < a" "a < pow2 1024"
    and m: "a = of_int m * pow2 j" "m < 2 ^ 53" and j: "- 1074 \<le> j"
  shows "toDouble a = Num a"
proof -
  define e where "e = max (binade a) (- 1022)"
  define u where "u = pow2 (e - 52)"
  define n where "n = roundHalfEven (a / u)"
  have upos: "0 < u" by (simp add: u_def pow2_pos)
  have mpos: "0 < m"
    using a(1) pow2_pos [of j] by (simp add: m(1) zero_less_mult_iff)
  from binade_bounds(1) [OF a(1)] a(2) have "pow2 (binade a) < pow2 1024" by simp
  then have b: "binade a \<le> 1023" by (simp add: pow2_less_iff)
  have je: "e - 52 \<le> j"
  proof (cases "binade a \<le> - 1022")
    case True
    then show ?thesis using j by (simp add: e_def)
  next
    case False
    have "(of_int m :: rat) < of_int (2 ^ 53)" using m(2) by (simp only: of_int_less_iff)
    then have "(of_int m :: rat) < pow2 53" by (simp add: pow2_powi)
    then have "a < pow2 53 * pow2 j"
      using pow2_pos [of j] by (simp add: m(1))
    with binade_bounds(1) [OF a(1)] have "pow2 (binade a) < pow2 (53 + j)"
      by (simp add: pow2_add)
    then have "binade a < 53 + j" by (simp add: pow2_less_iff)
    with False show ?thesis by (simp add: e_def)
  qed
  then obtain i where i: "j = (e - 52) + int i"
    by (metis add.commute diff_add_cancel nonneg_int_cases diff_ge_0_iff_ge)
  have au: "a / u = of_int (m * 2 ^ i)"
    using upos by (simp add: m(1) i pow2_add u_def pow2_nat)
  have n: "n = m * 2 ^ i"
    unfolding n_def au by (rule roundHalfEven_int)
  have val: "of_int n * u = a"
  proof -
    from au n have "a / u = of_int n" by simp
    with upos show ?thesis by (simp add: divide_eq_eq)
  qed
  have "\<not> (e = 1023 \<and> 2 ^ 53 \<le> n)"
  proof
    assume h: "e = 1023 \<and> 2 ^ 53 \<le> n"
    then have "(of_int (2 ^ 53) :: rat) \<le> of_int n" by (simp only: of_int_le_iff)
    then have "pow2 53 * u \<le> of_int n * u"
      using upos by (simp add: pow2_powi)
    moreover have "pow2 53 * u = pow2 1024"
      using h by (simp add: u_def pow2_add [symmetric])
    ultimately show False using val a(2) by simp
  qed
  moreover have "e \<le> 1023" using b by (simp add: e_def)
  ultimately show ?thesis
    by (simp add: toDouble_positive [OF a(1)] Let_def e_def [symmetric] u_def [symmetric]
        n_def [symmetric] val)
qed

lemma toDouble_nat: "n < 2 ^ 53 \<Longrightarrow> toDouble (of_nat n) = Num (of_nat n)"
proof (cases "n = 0")
  case True
  then show ?thesis by (simp add: toDouble_def)
next
  case False
  assume n: "n < 2 ^ 53"
  have "(of_nat n :: rat) < of_nat (2 ^ 53)" using n by (simp only: of_nat_less_iff)
  also have "\<dots> \<le> pow2 1024" by (simp add: pow2_powi)
  finally have 1: "(of_nat n :: rat) < pow2 1024" .
  show ?thesis
    by (rule toDouble_exact [where m = "int n" and j = 0])
       (use False n 1 in \<open>simp_all add: pow2_powi\<close>)
qed

lemma toDouble_half: "n < 2 ^ 53 \<Longrightarrow> toDouble (of_nat n / 2) = Num (of_nat n / 2)"
proof (cases "n = 0")
  case True
  then show ?thesis by (simp add: toDouble_def)
next
  case False
  assume n: "n < 2 ^ 53"
  have "(of_nat n :: rat) < of_nat (2 ^ 53)" using n by (simp only: of_nat_less_iff)
  also have "\<dots> \<le> pow2 1024" by (simp add: pow2_powi)
  finally have 1: "(of_nat n :: rat) / 2 < pow2 1024" by simp
  show ?thesis
    by (rule toDouble_exact [where m = "int n" and j = "- 1"])
       (use False n 1 in \<open>simp_all add: pow2_powi\<close>)
qed

section \<open>Properties of the duration parser\<close>

subsection \<open>The patterns\<close>

lemma colon_not_digit: "\<not> isDigit (CHR '':'')"
  by (simp add: isDigit_def cu_def)

lemma takeWhile_digits_stop:
  "list_all isDigit ds \<Longrightarrow> \<not> isDigit c \<Longrightarrow> takeWhile isDigit (ds @ c # r) = ds"
  by (induction ds) auto

lemma dropWhile_digits_stop:
  "list_all isDigit ds \<Longrightarrow> \<not> isDigit c \<Longrightarrow> dropWhile isDigit (ds @ c # r) = c # r"
  by (induction ds) auto

lemma hmsMatch_clock:
  assumes "list_all isDigit hs" "length hs = 1 \<or> length hs = 2"
    and "isDigit m1" "isDigit m2" "isDigit s1" "isDigit s2"
  shows "hmsMatch (hs @ '':'' @ [m1, m2] @ '':'' @ [s1, s2]) = Some (hs, [m1, m2], [s1, s2])"
  using assms
  by (simp add: hmsMatch_def hmsTail_def takeWhile_digits_stop dropWhile_digits_stop colon_not_digit)

lemma digit_not_space: "isDigit c \<Longrightarrow> \<not> isSpace c"
  by (auto simp: isDigit_def isSpace_def)

lemma point_not_digit: "\<not> isDigit (CHR ''.'')"
  by (simp add: isDigit_def cu_def)

lemma char_eq_cu: "c = d \<longleftrightarrow> cu c = cu d"
  by (simp add: cu_def)

lemma cu_char_of: "cu (char_of n) = n mod 256"
  by (simp add: cu_def)

lemma isUnit_cu: "isUnit u c \<longleftrightarrow> cu c = cu u \<or> cu c = (cu u - 32) mod 256"
  unfolding isUnit_def by (simp add: char_eq_cu [of c] cu_char_of)

lemma isUnit_plain:
  "unitLetter u \<Longrightarrow> isUnit u c \<Longrightarrow> \<not> isDigit c \<and> \<not> isSpace c \<and> c \<noteq> CHR '':''"
  by (auto simp: unitLetter_def isUnit_cu isDigit_def isSpace_def cu_def)

lemma unitMatch_has_letter:
  "unitMatch u v = Some ds \<Longrightarrow> \<exists>c \<in> set v. isUnit u c"
proof (induction v)
  case Nil
  then show ?case by simp
next
  case (Cons a v)
  let ?r = "dropWhile isSpace (dropWhile isDigit (a # v))"
  show ?case
  proof (cases "takeWhile isDigit (a # v) \<noteq> [] \<and> ?r \<noteq> [] \<and> isUnit u (hd ?r)")
    case True
    then have "hd ?r \<in> set ?r" by simp
    then have "hd ?r \<in> set (a # v)"
      by (meson set_dropWhileD)
    with True show ?thesis by blast
  next
    case False
    with Cons.prems have "unitMatch u v = Some ds"
      by (simp add: Let_def split: if_splits)
    with Cons.IH show ?thesis by auto
  qed
qed

lemma hmsTail_chars:
  assumes "hmsTail r = Some x" "c \<in> set r"
  shows "isDigit c \<or> c = CHR '':''"
proof -
  from assms(1) have l: "length r = 6" and
    p: "r ! 0 = CHR '':''" "isDigit (r ! 1)" "isDigit (r ! 2)" "r ! 3 = CHR '':''"
       "isDigit (r ! 4)" "isDigit (r ! 5)"
    by (auto simp: hmsTail_def split: if_splits)
  from assms(2) obtain i where i: "i < 6" "c = r ! i"
    using l by (metis in_set_conv_nth)
  from i(1) have "i = 0 \<or> i = 1 \<or> i = 2 \<or> i = 3 \<or> i = 4 \<or> i = 5" by arith
  with p i(2) show ?thesis by auto
qed

lemma hmsMatch_chars:
  assumes "hmsMatch v = Some x" "c \<in> set v"
  shows "isDigit c \<or> c = CHR '':''"
proof -
  from assms(1) obtain y where t: "hmsTail (dropWhile isDigit v) = Some y"
    by (auto simp: hmsMatch_def Let_def split: if_splits option.splits)
  have "v = takeWhile isDigit v @ dropWhile isDigit v" by simp
  then have "c \<in> set (takeWhile isDigit v) \<or> c \<in> set (dropWhile isDigit v)"
    using assms(2) by (metis Un_iff set_append)
  then show ?thesis
  proof
    assume "c \<in> set (takeWhile isDigit v)"
    then show ?thesis by (meson set_takeWhileD)
  next
    assume "c \<in> set (dropWhile isDigit v)"
    with t show ?thesis by (rule hmsTail_chars)
  qed
qed

lemma unit_excludes_clock:
  assumes "unitLetter u" "unitMatch u v = Some ds"
  shows "hmsMatch v = None"
proof (cases "hmsMatch v")
  case None
  then show ?thesis .
next
  case (Some x)
  from assms(2) obtain c where c: "c \<in> set v" "isUnit u c"
    using unitMatch_has_letter by blast
  from Some c(1) have "isDigit c \<or> c = CHR '':''" by (rule hmsMatch_chars)
  with isUnit_plain [OF assms(1) c(2)] show ?thesis by blast
qed

lemma unitMatch_nonempty: "unitMatch u v = Some ds \<Longrightarrow> v \<noteq> []"
  by auto



lemma isUnit_not_point: "unitLetter u \<Longrightarrow> isUnit u c \<Longrightarrow> c \<noteq> CHR ''.''"
  by (auto simp: unitLetter_def isUnit_cu cu_def)

lemma unitMatch_result: "unitMatch u v = Some ds \<Longrightarrow> ds \<noteq> [] \<and> list_all isDigit ds"
proof (induction v)
  case Nil
  then show ?case by simp
next
  case (Cons a v)
  let ?r = "dropWhile isSpace (dropWhile isDigit (a # v))"
  show ?case
  proof (cases "takeWhile isDigit (a # v) \<noteq> [] \<and> ?r \<noteq> [] \<and> isUnit u (hd ?r)")
    case True
    with Cons.prems have "ds = takeWhile isDigit (a # v)"
      by (simp add: Let_def split: if_splits)
    moreover have "list_all isDigit (takeWhile isDigit (a # v))"
      unfolding list_all_iff by (meson set_takeWhileD)
    ultimately show ?thesis using True by simp
  next
    case False
    with Cons.prems have "unitMatch u v = Some ds"
      by (simp add: Let_def split: if_splits)
    with Cons.IH show ?thesis by auto
  qed
qed

text \<open>An integer followed by optional space and a unit letter is what the patterns find.\<close>

lemma unitMatch_here:
  assumes "ds \<noteq> []" "list_all isDigit ds" "list_all isSpace ws" "isUnit u c" "unitLetter u"
  shows "unitMatch u (ds @ ws @ c # rest) = Some ds"
proof -
  from assms(4,5) have c: "\<not> isDigit c" "\<not> isSpace c" using isUnit_plain by blast+
  have t0: "takeWhile isDigit (ws @ c # rest) = []" "dropWhile isDigit (ws @ c # rest) = ws @ c # rest"
    using assms(3) c(1) by (cases ws; auto dest: digit_not_space)+
  have t: "takeWhile isDigit (ds @ ws @ c # rest) = ds"
    "dropWhile isDigit (ds @ ws @ c # rest) = ws @ c # rest"
    using assms(2) t0 by (simp_all add: list_all_iff takeWhile_append2 dropWhile_append2)
  have d: "dropWhile isSpace (ws @ c # rest) = c # rest"
    using assms(3) c(2) by (simp add: list_all_iff dropWhile_append2)
  obtain a as where a: "ds = a # as" using assms(1) by (cases ds) auto
  have "unitMatch u ((a # as) @ ws @ c # rest) = Some (a # as)"
    using t d assms(4) unfolding a by (simp add: Let_def del: takeWhile.simps dropWhile.simps)
  then show ?thesis by (simp add: a)
qed

lemma unitMatch_complete:
  assumes "ds \<noteq> []" "list_all isDigit ds" "list_all isSpace ws" "isUnit u c" "unitLetter u"
  shows "unitMatch u (pre @ ds @ ws @ c # rest) \<noteq> None"
proof (induction pre)
  case Nil
  then show ?case using unitMatch_here [OF assms] by simp
next
  case (Cons a pre)
  then show ?case by (simp add: Let_def)
qed

lemma trim_id: "v \<noteq> [] \<Longrightarrow> \<not> isSpace (hd v) \<Longrightarrow> \<not> isSpace (last v) \<Longrightarrow> trim v = v"
proof -
  assume a: "v \<noteq> []" "\<not> isSpace (hd v)" "\<not> isSpace (last v)"
  then have 1: "dropWhile isSpace v = v" by (cases v) auto
  from a have "rev v \<noteq> []" "\<not> isSpace (hd (rev v))" by (simp_all add: hd_rev)
  then have 2: "dropWhile isSpace (rev v) = rev v" by (cases "rev v") auto
  show ?thesis by (simp add: trim_def 1 2)
qed

lemma trim_digits: "list_all isDigit ds \<Longrightarrow> trim ds = ds"
proof (cases "ds = []")
  case True
  then show ?thesis by (simp add: trim_def)
next
  case False
  assume "list_all isDigit ds"
  with False have "isDigit (hd ds)" "isDigit (last ds)"
    by (simp_all add: list_all_iff)
  then show ?thesis using False by (simp add: trim_id digit_not_space)
qed

lemma nonDecimal_digits: "list_all isDigit ds \<Longrightarrow> nonDecimal ds = None"
  by (auto simp: nonDecimal_def isDigit_def cu_def split: list.splits)

lemma takeWhile_all: "list_all P xs \<Longrightarrow> takeWhile P xs = xs"
  by (simp add: list_all_iff)

lemma dropWhile_all: "list_all P xs \<Longrightarrow> dropWhile P xs = []"
  by (simp add: list_all_iff)



lemma unitMatch_digits: "unitLetter u \<Longrightarrow> list_all isDigit ds \<Longrightarrow> unitMatch u ds = None"
proof (rule ccontr)
  assume u: "unitLetter u" and d: "list_all isDigit ds" and "unitMatch u ds \<noteq> None"
  then obtain x where "unitMatch u ds = Some x" by auto
  then obtain c where "c \<in> set ds" "isUnit u c" using unitMatch_has_letter by blast
  with d isUnit_plain [OF u] show False by (auto simp: list_all_iff)
qed

lemma hmsMatch_digits: "list_all isDigit ds \<Longrightarrow> hmsMatch ds = None"
  by (simp add: hmsMatch_def Let_def dropWhile_all hmsTail_def)



subsection \<open>Decimal numerals\<close>

lemma decimalValue_Nil: "decimalValue [] = 0"
  by (simp add: decimalValue_def)

lemma decimalValue_snoc: "decimalValue (ds @ [c]) = 10 * decimalValue ds + digitVal c"
  by (simp add: decimalValue_def)

lemma digitVal_bound: "isDigit c \<Longrightarrow> digitVal c \<le> 9"
  by (auto simp: isDigit_def digitVal_def)

lemma decimalValue_bound: "list_all isDigit ds \<Longrightarrow> decimalValue ds < 10 ^ length ds"
proof (induction ds rule: rev_induct)
  case Nil
  then show ?case by (simp add: decimalValue_Nil)
next
  case (snoc c ds)
  then have "decimalValue ds < 10 ^ length ds" "digitVal c \<le> 9"
    by (simp_all add: digitVal_bound)
  then have "10 * decimalValue ds + digitVal c < 10 * 10 ^ length ds" by arith
  then show ?case by (simp add: decimalValue_snoc)
qed

lemma decimalValue_append:
  "decimalValue (ds @ es) = decimalValue ds * 10 ^ length es + decimalValue es"
proof (induction es rule: rev_induct)
  case Nil
  then show ?case by (simp add: decimalValue_Nil)
next
  case (snoc c es)
  have "decimalValue (ds @ es @ [c]) = 10 * decimalValue (ds @ es) + digitVal c"
    using decimalValue_snoc [of "ds @ es" c] by simp
  then show ?case by (simp add: snoc decimalValue_snoc algebra_simps)
qed

lemma exponentPart_Nil: "exponentPart [] = Some 0"
  by (simp add: exponentPart_def)

lemma scale10_0: "scale10 q 0 = q"
  by (simp add: scale10_def ipow_power)

lemma unsignedDecimal_digits:
  assumes "list_all isDigit ds" "ds \<noteq> []"
  shows "unsignedDecimal ds = toDouble (of_nat (decimalValue ds))"
proof -
  have "ds \<noteq> ''Infinity''"
    using assms(1) by (auto simp: isDigit_def cu_def)
  then show ?thesis
    using assms
    by (simp add: unsignedDecimal_def Let_def takeWhile_all dropWhile_all exponentPart_Nil
        scale10_0 decimalValue_Nil)
qed

lemma Number_digits:
  assumes "list_all isDigit ds" "ds \<noteq> []"
  shows "Number ds = toDouble (of_nat (decimalValue ds))"
proof -
  from assms have "isDigit (hd ds)" by (cases ds) auto
  then have "hd ds \<noteq> CHR ''-''" "hd ds \<noteq> CHR ''+''"
    by (auto simp: isDigit_def cu_def)
  then show ?thesis
    using assms
    by (simp add: Number_def Let_def trim_digits nonDecimal_digits unsignedDecimal_digits)
qed

lemma Number_nat:
  assumes "list_all isDigit ds" "ds \<noteq> []" "decimalValue ds < 2 ^ 53"
  shows "Number ds = Num (of_nat (decimalValue ds))"
  using Number_digits [OF assms(1,2)] toDouble_nat [OF assms(3)] by simp

text \<open>Digits, a point, digits.\<close>

lemma nonDecimal_point:
  assumes "list_all isDigit ip" "ip \<noteq> []"
  shows "nonDecimal (ip @ CHR ''.'' # fp) = None"
proof (cases ip)
  case Nil
  with assms(2) show ?thesis by simp
next
  case (Cons z zs)
  show ?thesis
  proof (cases zs)
    case Nil
    then show ?thesis by (simp add: Cons nonDecimal_def)
  next
    case (Cons x xs)
    with assms(1) \<open>ip = z # zs\<close> have "isDigit x" by simp
    then have "x \<noteq> CHR ''x''" "x \<noteq> CHR ''X''" "x \<noteq> CHR ''o''" "x \<noteq> CHR ''O''"
      "x \<noteq> CHR ''b''" "x \<noteq> CHR ''B''"
      by (auto simp: isDigit_def cu_def)
    then show ?thesis by (simp add: \<open>ip = z # zs\<close> Cons nonDecimal_def)
  qed
qed

lemma trim_point:
  assumes "list_all isDigit ip" "ip \<noteq> []" "list_all isDigit fp"
  shows "trim (ip @ CHR ''.'' # fp) = ip @ CHR ''.'' # fp"
proof (rule trim_id)
  show "ip @ CHR ''.'' # fp \<noteq> []" by simp
  from assms(1,2) have "isDigit (hd ip)" by (cases ip) auto
  then show "\<not> isSpace (hd (ip @ CHR ''.'' # fp))"
    using assms(2) by (simp add: digit_not_space)
  show "\<not> isSpace (last (ip @ CHR ''.'' # fp))"
  proof (cases "fp = []")
    case True
    then show ?thesis by (simp add: isSpace_def cu_def)
  next
    case False
    with assms(3) have "isDigit (last fp)" by (simp add: list_all_iff)
    with False show ?thesis by (simp add: digit_not_space)
  qed
qed

lemma Number_point:
  assumes "list_all isDigit ip" "ip \<noteq> []" "list_all isDigit fp"
  shows "Number (ip @ CHR ''.'' # fp)
         = toDouble (of_nat (decimalValue ip) + of_nat (decimalValue fp) / 10 ^ length fp)"
proof -
  from assms(1,2) have d: "isDigit (hd ip)" by (cases ip) auto
  then have h: "hd (ip @ CHR ''.'' # fp) \<noteq> CHR ''-''" "hd (ip @ CHR ''.'' # fp) \<noteq> CHR ''+''"
    using assms(2) by (auto simp: isDigit_def cu_def)
  have i: "ip @ CHR ''.'' # fp \<noteq> ''Infinity''"
  proof
    assume "ip @ CHR ''.'' # fp = ''Infinity''"
    then have "hd (ip @ CHR ''.'' # fp) = CHR ''I''" by simp
    with d assms(2) show False by (simp add: isDigit_def cu_def)
  qed
  have t: "takeWhile isDigit (ip @ CHR ''.'' # fp) = ip"
    "dropWhile isDigit (ip @ CHR ''.'' # fp) = CHR ''.'' # fp"
    using assms(1) point_not_digit
    by (simp_all add: takeWhile_digits_stop dropWhile_digits_stop)
  have u: "unsignedDecimal (ip @ CHR ''.'' # fp)
           = toDouble (of_nat (decimalValue ip) + of_nat (decimalValue fp) / 10 ^ length fp)"
    unfolding unsignedDecimal_def Let_def t
    using i assms(2,3)
    by (simp add: takeWhile_all dropWhile_all exponentPart_Nil scale10_0 ipow_power)
  show ?thesis
    using h u by (simp add: Number_def Let_def trim_point [OF assms] nonDecimal_point [OF assms(1,2)])
qed

lemma hmsMatch_point: "list_all isDigit ip \<Longrightarrow> hmsMatch (ip @ CHR ''.'' # fp) = None"
  using point_not_digit
  by (simp add: hmsMatch_def Let_def takeWhile_digits_stop dropWhile_digits_stop hmsTail_def)

lemma unitMatch_point:
  assumes "unitLetter u" "list_all isDigit ip" "list_all isDigit fp"
  shows "unitMatch u (ip @ CHR ''.'' # fp) = None"
proof (rule ccontr)
  assume "unitMatch u (ip @ CHR ''.'' # fp) \<noteq> None"
  then obtain x where "unitMatch u (ip @ CHR ''.'' # fp) = Some x" by auto
  then obtain c where c: "c \<in> set (ip @ CHR ''.'' # fp)" "isUnit u c"
    using unitMatch_has_letter by blast
  from c(1) assms(2,3) have "isDigit c \<or> c = CHR ''.''" by (auto simp: list_all_iff)
  with isUnit_plain [OF assms(1) c(2)] isUnit_not_point [OF assms(1) c(2)] show False by blast
qed

subsection \<open>Rounding\<close>

lemma toDouble_not_NaN: "toDouble x \<noteq> NaN"
  by (simp add: toDouble_def Let_def)

lemma roundOrNull_Some: "n \<noteq> NaN \<Longrightarrow> roundOrNull n = Some (Math_round n)"
  by (cases n) simp_all

text \<open>The nearest double of a normal number is within the fraction \<open>2^-53\<close> of it.\<close>

lemma toDouble_relative:
  assumes "pow2 (- 1022) \<le> a" "a < pow2 1023"
  shows "\<exists>d. toDouble a = Num d \<and> \<bar>d - a\<bar> \<le> a * pow2 (- 53)"
proof -
  have a0: "0 < a" using assms(1) pow2_pos [of "- 1022"] by linarith
  let ?k = "binade a + 1"
  have b: "pow2 (binade a) \<le> a" "a < pow2 ?k" by (rule binade_bounds [OF a0])+
  from b(2) assms(1) have "pow2 (- 1022) < pow2 ?k" by linarith
  then have k1: "- 1021 \<le> ?k" by (simp add: pow2_less_iff)
  from b(1) assms(2) have "pow2 (binade a) < pow2 1023" by linarith
  then have k2: "?k \<le> 1023" by (simp add: pow2_less_iff)
  obtain d where d: "toDouble a = Num d" "\<bar>d - a\<bar> \<le> pow2 (?k - 54)"
    using toDouble_error [OF a0 b(2) k1 k2] by auto
  have "pow2 (?k - 54) = pow2 (binade a) * pow2 (- 53)"
    by (simp add: pow2_add [symmetric])
  also have "\<dots> \<le> a * pow2 (- 53)"
    using b(1) pow2_pos [of "- 53"] by (simp add: mult_right_mono)
  finally have "pow2 (?k - 54) \<le> a * pow2 (- 53)" .
  with d show ?thesis by (meson order_trans)
qed

lemma roundHalfUp_nat: "roundHalfUp (of_nat n) = of_nat n"
proof -
  have "\<lfloor>(of_nat n :: rat) + 1 / 2\<rfloor> = int n" by linarith
  then show ?thesis by (simp add: roundHalfUp_def)
qed

text \<open>
  A sum of whole minutes and sixtieths below \<open>2^45\<close>: the division and the addition are
  each off by at most half a spacing of the doubles, \<open>3/512\<close> together, while the exact
  sum is a sixtieth or more away from the next half, unless it is a multiple of a half, and
  then both operations are exact.
\<close>

lemma roundHalfUp_near:
  fixes x :: rat
  assumes "T + 30 = 60 * q + r" "1 \<le> r" "r < 60"
    and "\<bar>x - of_nat T / 60\<bar> \<le> 3 / 512"
  shows "roundHalfUp x = of_nat q \<and> roundHalfUp (of_nat T / 60) = of_nat q"
proof -
  have "(of_nat (T + 30) :: rat) = of_nat (60 * q + r)" using assms(1) by simp
  then have e: "(of_nat T :: rat) / 60 + 1 / 2 = of_nat q + of_nat r / 60"
    by (simp add: field_simps)
  have "r \<le> 59" "Suc 0 \<le> r" using assms(2,3) by simp_all
  then have "(of_nat r :: rat) \<le> of_nat 59" "(of_nat (Suc 0) :: rat) \<le> of_nat r"
    by (simp_all only: of_nat_le_iff)
  then have r: "(1 :: rat) \<le> of_nat r" "(of_nat r :: rat) \<le> 59" by simp_all
  from assms(4) have a: "x - of_nat T / 60 \<le> 3 / 512" "of_nat T / 60 - x \<le> 3 / 512"
    by (simp_all only: abs_le_iff minus_diff_eq)
  have 1: "\<lfloor>x + 1 / 2\<rfloor> = int q"
  proof (rule floor_unique)
    show "of_int (int q) \<le> x + 1 / 2" unfolding of_int_of_nat_eq using a e r by linarith
    show "x + 1 / 2 < of_int (int q) + 1" unfolding of_int_of_nat_eq using a e r by linarith
  qed
  have 2: "\<lfloor>(of_nat T :: rat) / 60 + 1 / 2\<rfloor> = int q"
  proof (rule floor_unique)
    show "of_int (int q) \<le> (of_nat T :: rat) / 60 + 1 / 2"
      unfolding of_int_of_nat_eq using e r by linarith
    show "(of_nat T :: rat) / 60 + 1 / 2 < of_int (int q) + 1"
      unfolding of_int_of_nat_eq using e r by linarith
  qed
  show ?thesis by (simp add: roundHalfUp_def 1 2)
qed

lemma pow2_numeral_45: "pow2 45 = 2 ^ 45" "pow2 46 = 2 ^ 46"
  using pow2_nat [of 45] pow2_nat [of 46] by simp_all

lemma pow2_neg9: "pow2 (- 9) = 1 / 512" "pow2 (- 8) = 1 / 256"
  by (simp_all add: pow2_powi power_int_minus)

lemma seconds_round:
  fixes N S :: nat
  assumes b: "(of_nat N :: rat) + of_nat S / 60 < 2 ^ 45"
  shows "\<exists>x. jsAdd (Num (of_nat N)) (jsDiv (Num (of_nat S)) (Num 60)) = Num x
            \<and> \<bar>x - (of_nat N + of_nat S / 60)\<bar> \<le> 3 / 512
            \<and> roundHalfUp x = roundHalfUp (of_nat N + of_nat S / 60)"
proof -
  show ?thesis
  proof (cases "S mod 30 = 0")
    case True
    then obtain t where t: "S = 30 * t" by auto
    have s: "(of_nat S :: rat) / 60 = of_nat t / 2" by (simp add: t)
    have "(of_nat (2 * N + t) :: rat) / 2 < 2 ^ 45" using b by (simp add: s add_divide_distrib)
    then have "(of_nat (2 * N + t) :: rat) < 2 ^ 46" by simp
    then have "(of_nat (2 * N + t) :: rat) < of_nat (2 ^ 46)" by simp
    then have l: "2 * N + t < 2 ^ 46" by (simp only: of_nat_less_iff)
    then have l1: "t < 2 ^ 53" "2 * N + t < 2 ^ 53" by simp_all
    have 1: "jsDiv (Num (of_nat S)) (Num 60) = Num (of_nat t / 2)"
      using toDouble_half [OF l1(1)] by (simp add: s)
    have h: "(of_nat N :: rat) + of_nat t / 2 = of_nat (2 * N + t) / 2" by (simp add: add_divide_distrib)
    have "toDouble (of_nat N + of_nat t / 2) = Num (of_nat N + of_nat t / 2)"
      unfolding h by (rule toDouble_half [OF l1(2)])
    then have 2: "jsAdd (Num (of_nat N)) (Num (of_nat t / 2)) = Num (of_nat N + of_nat t / 2)"
      by simp
    show ?thesis unfolding 1 2 s by simp
  next
    case False
    then have S: "0 < S" by (cases S) auto
    let ?a = "(of_nat S :: rat) / 60"
    have a0: "0 < ?a" using S by simp
    have "Suc 0 \<le> S" using S by simp
    then have "(of_nat (Suc 0) :: rat) \<le> of_nat S" by (simp only: of_nat_le_iff)
    then have a1: "1 / 60 \<le> ?a" by simp
    have a2: "?a < pow2 45" using b by (simp add: pow2_numeral_45)
    obtain d where d: "toDouble ?a = Num d" "\<bar>d - ?a\<bar> \<le> pow2 (45 - 54)" "0 \<le> d"
      using toDouble_error [OF a0 a2] by auto
    have "\<bar>d - ?a\<bar> \<le> 1 / 512" using d(2) by (simp add: pow2_neg9)
    then have d1: "d - ?a \<le> 1 / 512" "?a - d \<le> 1 / 512"
      by (simp_all only: abs_le_iff minus_diff_eq)
    have n0: "(0 :: rat) \<le> of_nat N" by simp
    have b45: "pow2 45 = 35184372088832" "pow2 46 = 70368744177664"
      by (simp_all add: pow2_numeral_45)
    let ?y = "of_nat N + d"
    have y0: "0 < ?y" using d1 a1 n0 by linarith
    have y1: "?y < pow2 46" unfolding b45 using d1 b by simp
    obtain x where x: "toDouble ?y = Num x" "\<bar>x - ?y\<bar> \<le> pow2 (46 - 54)"
      using toDouble_error [OF y0 y1] by auto
    have "\<bar>x - ?y\<bar> \<le> 1 / 256" using x(2) by (simp add: pow2_neg9)
    then have x1: "x - ?y \<le> 1 / 256" "?y - x \<le> 1 / 256"
      by (simp_all only: abs_le_iff minus_diff_eq)
    have e: "\<bar>x - (of_nat N + ?a)\<bar> \<le> 3 / 512"
      unfolding abs_le_iff minus_diff_eq using x1 d1 by linarith
    have j: "jsAdd (Num (of_nat N)) (jsDiv (Num (of_nat S)) (Num 60)) = Num x"
      by (simp add: d(1) x(1))
    define T where "T = 60 * N + S"
    define q where "q = (T + 30) div 60"
    define r where "r = (T + 30) mod 60"
    have T: "of_nat N + ?a = (of_nat T :: rat) / 60" by (simp add: T_def add_divide_distrib)
    have qr: "T + 30 = 60 * q + r" "r < 60" by (simp_all add: q_def r_def)
    have "r \<noteq> 0" using False unfolding r_def T_def by presburger
    then have r1: "1 \<le> r" by simp
    from roundHalfUp_near [OF qr(1) r1 qr(2), of x] e
    have "roundHalfUp x = roundHalfUp (of_nat N + ?a)" by (simp add: T)
    with j e show ?thesis by blast
  qed
qed


lemma nat_less_of_rat: "(of_nat a :: rat) < of_nat b \<Longrightarrow> a < b"
  by (simp only: of_nat_less_iff)

lemma jsMul_60: "h * 60 < 2 ^ 53 \<Longrightarrow> jsMul (Num (of_nat h)) (Num 60) = Num (of_nat (h * 60))"
  using toDouble_nat [of "h * 60"] by simp

lemma jsAdd_nat:
  "a + b < 2 ^ 53 \<Longrightarrow> jsAdd (Num (of_nat a)) (Num (of_nat b)) = Num (of_nat (a + b))"
  using toDouble_nat [of "a + b"] by simp

lemma sum_bounds:
  fixes h m s :: nat
  assumes "(of_nat h * 60 + of_nat m + of_nat s / 60 :: rat) < 2 ^ 45"
  shows "h * 60 + m < 2 ^ 45" "s < 2 ^ 53" "h < 2 ^ 53" "m < 2 ^ 53"
proof -
  have s0: "(0 :: rat) \<le> of_nat s / 60" by simp
  have "(of_nat (h * 60 + m) :: rat) = of_nat h * 60 + of_nat m" by simp
  with assms s0 have "(of_nat (h * 60 + m) :: rat) < 2 ^ 45" by linarith
  then have "(of_nat (h * 60 + m) :: rat) < of_nat (2 ^ 45)" by simp
  then show 1: "h * 60 + m < 2 ^ 45" by (rule nat_less_of_rat)
  then show "h < 2 ^ 53" "m < 2 ^ 53" by simp_all
  have n0: "(0 :: rat) \<le> of_nat h * 60 + of_nat m" by simp
  with assms have "(of_nat s :: rat) / 60 < 2 ^ 45" by linarith
  then have "(of_nat s :: rat) < 60 * 2 ^ 45" by simp
  then have "(of_nat s :: rat) < of_nat (2 ^ 53)" by simp
  then show "s < 2 ^ 53" by (rule nat_less_of_rat)
qed

text \<open>A decimal numeral of at most 15 digits: the nearest double rounds to the same integer
  as the numeral.\<close>

lemma decimal_round:
  fixes A k :: nat
  assumes A: "A < 10 ^ 15" and k: "k \<le> 15"
  shows "Math_round (toDouble (of_nat A / 10 ^ k)) = Num (roundHalfUp (of_nat A / 10 ^ k))"
proof (cases "A = 0")
  case True
  have "toDouble 0 = Num 0" by (simp add: toDouble_def)
  then show ?thesis by (simp add: True Math_round_def)
next
  case False
  define P :: nat where "P = 10 ^ k"
  define x :: rat where "x = of_nat A / of_nat P"
  define q where "q = (2 * A + P) div (2 * P)"
  define r where "r = (2 * A + P) mod (2 * P)"
  define w :: rat where "w = of_nat r / (2 * of_nat P)"
  define e :: rat where "e = 1 / (4 * of_nat P)"
  have P0: "0 < P" by (simp add: P_def)
  then have P1: "(0 :: rat) < of_nat P" by simp
  have xP: "of_nat A / 10 ^ k = x" by (simp add: x_def P_def)
  have A1: "(1 :: rat) \<le> of_nat A" using False by (simp add: Suc_le_eq)
  have A2: "(of_nat A :: rat) < 10 ^ 15"
  proof -
    have "(of_nat A :: rat) < of_nat (10 ^ 15)" using A by (simp only: of_nat_less_iff)
    then show ?thesis by simp
  qed
  have x0: "0 < x" using False P1 by (simp add: x_def)
  have e0: "0 < e" using P1 by (simp add: e_def)
  have "2 * A + P = 2 * P * q + r" by (simp add: q_def r_def)
  then have "(of_nat (2 * A + P) :: rat) = of_nat (2 * P * q + r)" by simp
  then have "2 * of_nat A + of_nat P = 2 * of_nat P * of_nat q + (of_nat r :: rat)" by simp
  then have "(2 * of_nat A + of_nat P) / (2 * of_nat P)
             = (2 * of_nat P * of_nat q + (of_nat r :: rat)) / (2 * of_nat P)" by simp
  then have xq: "x + 1 / 2 = of_nat q + w"
    using P1 by (simp add: x_def w_def add_divide_distrib)
  show ?thesis
  proof (cases "r = 0")
    case True
    then have h: "x + 1 / 2 = of_nat q" using xq by (simp add: w_def)
    with x0 have "(0 :: rat) < of_nat q" by linarith
    then have q0: "0 < q" by simp
    have "(of_nat (2 * q - 1) :: rat) = 2 * of_nat q - 1"
      using q0 by (simp add: Suc_le_eq)
    then have x2: "x = of_nat (2 * q - 1) / 2" using h by simp
    have "x \<le> of_nat A" using P0 A1 unfolding x_def
      by (simp add: divide_le_eq Suc_le_eq mult_le_cancel_left1 flip: of_nat_mult)
    with A2 have "x < 10 ^ 15" by linarith
    then have "(of_nat (2 * q - 1) :: rat) < 2 ^ 53" unfolding x2 by simp
    then have "(of_nat (2 * q - 1) :: rat) < of_nat (2 ^ 53)" by simp
    then have "2 * q - 1 < 2 ^ 53" by (rule nat_less_of_rat)
    from toDouble_half [OF this] have "toDouble x = Num x" by (simp add: x2)
    then show ?thesis by (simp add: xP Math_round_def)
  next
    case False
    then have "Suc 0 \<le> r" by simp
    then have "(of_nat (Suc 0) :: rat) \<le> of_nat r" by (simp only: of_nat_le_iff)
    then have "1 / (2 * of_nat P) \<le> w" using P1 unfolding w_def by (simp add: divide_right_mono)
    moreover have "1 / (2 * of_nat P) = 2 * e" by (simp add: e_def)
    ultimately have w1: "2 * e \<le> w" by simp
    have "r < 2 * P" using P0 by (simp add: r_def)
    then have "r + 1 \<le> 2 * P" by simp
    then have "(of_nat (r + 1) :: rat) \<le> of_nat (2 * P)" by (simp only: of_nat_le_iff)
    then have "(of_nat r :: rat) \<le> 2 * of_nat P - 1" by simp
    then have "w \<le> (2 * of_nat P - 1) / (2 * of_nat P)"
      using P1 unfolding w_def by (simp add: divide_right_mono)
    moreover have "(2 * of_nat P - 1) / (2 * of_nat P) = 1 - 2 * e"
      using P1 by (simp add: e_def field_simps)
    ultimately have w2: "w \<le> 1 - 2 * e" by simp
    have xA: "x \<le> of_nat A"
      using P0 A1 unfolding x_def
      by (simp add: divide_le_eq Suc_le_eq mult_le_cancel_left1 flip: of_nat_mult)
    have "(10 :: nat) ^ k \<le> 10 ^ 15" using k by (intro power_increasing) simp_all
    then have "(of_nat P :: rat) \<le> of_nat (10 ^ 15)" unfolding P_def by (simp only: of_nat_le_iff)
    then have Pb: "(of_nat P :: rat) \<le> 2 ^ 50" by simp
    have p50: "pow2 (- 50) = 1 / 2 ^ 50" "pow2 (- 53) = 1 / 2 ^ 53" "pow2 50 = 2 ^ 50"
      using pow2_nat [of 50] by (simp_all add: pow2_powi power_int_minus)
    have "pow2 (- 1022) \<le> pow2 (- 50)" by (simp add: pow2_le_iff)
    also have "\<dots> \<le> 1 / of_nat P" unfolding p50 using P1 Pb by (intro frac_le) simp_all
    also have "\<dots> \<le> x" unfolding x_def using A1 P1 by (simp add: divide_right_mono)
    finally have lo: "pow2 (- 1022) \<le> x" .
    have "(10 :: rat) ^ 15 < 2 ^ 50" by simp
    then have "x < pow2 50" unfolding p50 using xA A2 by simp
    moreover have "pow2 50 \<le> pow2 1023" by (simp add: pow2_le_iff)
    ultimately have hi: "x < pow2 1023" by linarith
    obtain d where d: "toDouble x = Num d" "\<bar>d - x\<bar> \<le> x * pow2 (- 53)"
      using toDouble_relative [OF lo hi] by auto
    have "of_nat A / 2 ^ 53 < (1 / 4 :: rat)" using A2 by simp
    then have "of_nat A / 2 ^ 53 / of_nat P < (1 / 4 :: rat) / of_nat P"
      using P1 by (rule divide_strict_right_mono)
    moreover have "of_nat A / 2 ^ 53 / of_nat P = x * pow2 (- 53)"
      by (simp add: x_def p50)
    moreover have "(1 / 4 :: rat) / of_nat P = e" by (simp add: e_def)
    ultimately have "x * pow2 (- 53) < e" by simp
    with d(2) have "\<bar>d - x\<bar> < e" by linarith
    then have dx: "d - x < e" "x - d < e" by (simp_all only: abs_less_iff minus_diff_eq)
    have 1: "\<lfloor>d + 1 / 2\<rfloor> = int q"
    proof (rule floor_unique)
      show "of_int (int q) \<le> d + 1 / 2" unfolding of_int_of_nat_eq using dx xq w1 w2 e0 by linarith
      show "d + 1 / 2 < of_int (int q) + 1" unfolding of_int_of_nat_eq using dx xq w1 w2 e0 by linarith
    qed
    have 2: "\<lfloor>x + 1 / 2\<rfloor> = int q"
    proof (rule floor_unique)
      show "of_int (int q) \<le> x + 1 / 2" unfolding of_int_of_nat_eq using xq w1 w2 e0 by linarith
      show "x + 1 / 2 < of_int (int q) + 1" unfolding of_int_of_nat_eq using xq w1 w2 e0 by linarith
    qed
    show ?thesis by (simp add: xP d(1) Math_round_def roundHalfUp_def 1 2)
  qed
qed


lemma minutes_seconds:
  fixes h m s :: nat
  assumes b: "(of_nat h * 60 + of_nat m + of_nat s / 60 :: rat) < 2 ^ 45"
  shows "\<exists>x. jsAdd (Num (of_nat (h * 60 + m))) (jsDiv (Num (of_nat s)) (Num 60)) = Num x
            \<and> \<bar>x - (of_nat h * 60 + of_nat m + of_nat s / 60)\<bar> \<le> 3 / 512
            \<and> roundHalfUp x = roundHalfUp (of_nat h * 60 + of_nat m + of_nat s / 60)"
proof -
  have e: "(of_nat (h * 60 + m) :: rat) = of_nat h * 60 + of_nat m" by simp
  from b have "(of_nat (h * 60 + m) :: rat) + of_nat s / 60 < 2 ^ 45" by (simp only: e)
  from seconds_round [OF this] show ?thesis by (simp only: e)
qed

lemma two_digits:
  assumes "list_all isDigit ds" "length ds \<le> 2"
  shows "decimalValue ds < 100"
proof -
  have "(10 :: nat) ^ length ds \<le> 10 ^ 2" using assms(2) by (intro power_increasing) simp_all
  with decimalValue_bound [OF assms(1)] show ?thesis by simp
qed

lemma clockMinutes_value:
  assumes "list_all isDigit hs" "hs \<noteq> []" "length hs \<le> 2"
    and "list_all isDigit ms" "ms \<noteq> []" "length ms \<le> 2"
    and "list_all isDigit ss" "ss \<noteq> []" "length ss \<le> 2"
  shows "clockMinutes (hs, ms, ss)
         = Num (roundHalfUp (of_nat (decimalValue hs) * 60 + of_nat (decimalValue ms)
                             + of_nat (decimalValue ss) / 60))"
proof -
  define h where "h = decimalValue hs"
  define m where "m = decimalValue ms"
  define s where "s = decimalValue ss"
  have "h < 100" "m < 100" "s < 100"
    using assms by (simp_all add: h_def m_def s_def two_digits)
  then have "h \<le> 99" "m \<le> 99" "s \<le> 99" by simp_all
  then have "(of_nat h :: rat) \<le> of_nat 99" "(of_nat m :: rat) \<le> of_nat 99"
    "(of_nat s :: rat) \<le> of_nat 99"
    by (simp_all only: of_nat_le_iff)
  then have r: "(of_nat h :: rat) \<le> 99" "(of_nat m :: rat) \<le> 99" "(of_nat s :: rat) \<le> 99"
    by simp_all
  have p: "(2 :: rat) ^ 45 = 35184372088832" by simp
  have b: "(of_nat h * 60 + of_nat m + of_nat s / 60 :: rat) < 2 ^ 45"
    unfolding p using r by linarith
  note n = sum_bounds [OF b]
  have 1: "Number hs = Num (of_nat h)" "Number ms = Num (of_nat m)" "Number ss = Num (of_nat s)"
    using assms n by (simp_all add: h_def m_def s_def Number_nat)
  have 2: "jsMul (Num (of_nat h)) (Num 60) = Num (of_nat (h * 60))"
    using n(1) by (intro jsMul_60) simp
  have 3: "jsAdd (Num (of_nat (h * 60))) (Num (of_nat m)) = Num (of_nat (h * 60 + m))"
    using n(1) by (intro jsAdd_nat) simp
  obtain x where x: "jsAdd (Num (of_nat (h * 60 + m))) (jsDiv (Num (of_nat s)) (Num 60)) = Num x"
    "roundHalfUp x = roundHalfUp (of_nat h * 60 + of_nat m + of_nat s / 60)"
    using minutes_seconds [OF b] by blast
  have "clockMinutes (hs, ms, ss) = Math_round (Num x)"
    unfolding clockMinutes.simps 1 2 3 x(1) ..
  then show ?thesis
    by (simp add: Math_round_def x(2) h_def m_def s_def)
qed

text \<open>
  Claim C5. For every duration string whose trimmed form has the clock shape \<open>H:MM:SS\<close> or
  \<open>HH:MM:SS\<close> (one or two hour digits, two minute digits, two second digits), parseMinutes
  returns \<open>H * 60 + MM + SS / 60\<close> rounded to the nearest integer; \<open>1:02:30\<close> gives 63.
\<close>

theorem parseMinutes_clock:
  assumes "trim value = hs @ '':'' @ [m1, m2] @ '':'' @ [s1, s2]"
    and "list_all isDigit hs" "length hs = 1 \<or> length hs = 2"
    and "isDigit m1" "isDigit m2" "isDigit s1" "isDigit s2"
  shows "parseMinutes value =
           Some (Num (roundHalfUp (of_nat (decimalValue hs) * 60 + of_nat (decimalValue [m1, m2])
                               + of_nat (decimalValue [s1, s2]) / 60)))
         \<and> parseMinutes ''1:02:30'' = Some (Num 63)"
proof
  have m: "hmsMatch (trim value) = Some (hs, [m1, m2], [s1, s2])"
    using assms hmsMatch_clock by simp
  have ne: "trim value \<noteq> []"
    using assms(1) by simp
  have h: "hs \<noteq> []" "length hs \<le> 2" using assms(3) by auto
  have "parseMinutes value = Some (clockMinutes (hs, [m1, m2], [s1, s2]))"
    using m ne by (simp add: parseMinutes_def parseNonEmpty_def)
  also have "clockMinutes (hs, [m1, m2], [s1, s2])
             = Num (roundHalfUp (of_nat (decimalValue hs) * 60 + of_nat (decimalValue [m1, m2])
                               + of_nat (decimalValue [s1, s2]) / 60))"
    using assms(2,4-7) h by (intro clockMinutes_value) simp_all
  finally show "parseMinutes value =
           Some (Num (roundHalfUp (of_nat (decimalValue hs) * 60 + of_nat (decimalValue [m1, m2])
                               + of_nat (decimalValue [s1, s2]) / 60)))" .
  show "parseMinutes ''1:02:30'' = Some (Num 63)"
    by code_simp
qed

theorem parseMinutes_clock_witness:
  "trim '' 12:34:56 '' = ''12'' @ '':'' @ [CHR ''3'', CHR ''4''] @ '':'' @ [CHR ''5'', CHR ''6'']
   \<and> parseMinutes '' 12:34:56 '' = Some (Num 755)"
proof -
  have t: "trim '' 12:34:56 '' = ''12'' @ '':'' @ [CHR ''3'', CHR ''4''] @ '':'' @ [CHR ''5'', CHR ''6'']"
    by code_simp
  have d: "list_all isDigit ''12''" "length ''12'' = 1 \<or> length ''12'' = 2"
    "isDigit (CHR ''3'')" "isDigit (CHR ''4'')" "isDigit (CHR ''5'')" "isDigit (CHR ''6'')"
    by (simp_all add: isDigit_def cu_def)
  have v: "roundHalfUp (of_nat (decimalValue ''12'') * 60 + of_nat (decimalValue [CHR ''3'', CHR ''4''])
                               + of_nat (decimalValue [CHR ''5'', CHR ''6'']) / 60) = 755"
    by code_simp
  from parseMinutes_clock [OF t d] v show ?thesis
    using t by simp
qed

subsection \<open>The unit patterns\<close>

lemma unitValue_Number:
  assumes "unitMatch u v = Some d" "unitValue u v < 2 ^ 53"
  shows "Number d = Num (of_nat (unitValue u v))"
proof -
  from unitMatch_result [OF assms(1)] have "d \<noteq> []" "list_all isDigit d" by simp_all
  moreover have "unitValue u v = decimalValue d" by (simp add: unitValue_def assms(1))
  ultimately show ?thesis using assms(2) by (simp add: Number_nat)
qed

lemma unitValue_None: "unitMatch u v = None \<Longrightarrow> unitValue u v = 0"
  by (simp add: unitValue_def)

text \<open>Below \<open>2^45\<close> the sum that the code computes is a double that rounds as the exact
  sum does, and the two are less than \<open>1/60\<close> apart.\<close>

lemma unitSum_value:
  fixes v :: string
  defines "h \<equiv> unitValue (CHR ''h'') v" and "m \<equiv> unitValue (CHR ''m'') v"
    and "s \<equiv> unitValue (CHR ''s'') v"
  assumes b: "(of_nat h * 60 + of_nat m + of_nat s / 60 :: rat) < 2 ^ 45"
  shows "\<exists>x. unitSum v = Num x
            \<and> \<bar>x - (of_nat h * 60 + of_nat m + of_nat s / 60)\<bar> \<le> 3 / 512
            \<and> roundHalfUp x = roundHalfUp (of_nat h * 60 + of_nat m + of_nat s / 60)"
proof -
  note n = sum_bounds [OF b]
  have 1: "addHours (Num 0) (unitMatch (CHR ''h'') v) = Num (of_nat (h * 60))"
  proof (cases "unitMatch (CHR ''h'') v")
    case None
    then show ?thesis by (simp add: h_def unitValue_None)
  next
    case (Some d)
    have "Number d = Num (of_nat h)"
      unfolding h_def using Some n(3) by (intro unitValue_Number) (simp_all add: h_def)
    moreover have "jsMul (Num (of_nat h)) (Num 60) = Num (of_nat (h * 60))"
      using n(1) by (intro jsMul_60) simp
    moreover have "jsAdd (Num (of_nat 0)) (Num (of_nat (h * 60))) = Num (of_nat (0 + h * 60))"
      using n(1) by (intro jsAdd_nat) simp
    ultimately show ?thesis by (simp add: Some)
  qed
  have 2: "addMinutes (Num (of_nat (h * 60))) (unitMatch (CHR ''m'') v) = Num (of_nat (h * 60 + m))"
  proof (cases "unitMatch (CHR ''m'') v")
    case None
    then show ?thesis by (simp add: m_def unitValue_None)
  next
    case (Some d)
    have "Number d = Num (of_nat m)"
      unfolding m_def using Some n(4) by (intro unitValue_Number) (simp_all add: m_def)
    moreover have "jsAdd (Num (of_nat (h * 60))) (Num (of_nat m)) = Num (of_nat (h * 60 + m))"
      using n(1) by (intro jsAdd_nat) simp
    ultimately show ?thesis by (simp only: Some addMinutes.simps)
  qed
  have 3: "\<exists>x. addSeconds (Num (of_nat (h * 60 + m))) (unitMatch (CHR ''s'') v) = Num x
            \<and> \<bar>x - (of_nat h * 60 + of_nat m + of_nat s / 60)\<bar> \<le> 3 / 512
            \<and> roundHalfUp x = roundHalfUp (of_nat h * 60 + of_nat m + of_nat s / 60)"
  proof (cases "unitMatch (CHR ''s'') v")
    case None
    then have "s = 0" by (simp add: s_def unitValue_None)
    then show ?thesis by (simp add: None)
  next
    case (Some d)
    have "Number d = Num (of_nat s)"
      unfolding s_def using Some n(2) by (intro unitValue_Number) (simp_all add: s_def)
    with minutes_seconds [OF b] show ?thesis by (simp only: Some addSeconds.simps)
  qed
  show ?thesis unfolding unitSum_def 1 2 by (rule 3)
qed

lemma sum_positive:
  fixes h m s :: nat
  assumes "0 < (of_nat h * 60 + of_nat m + of_nat s / 60 :: rat)"
  shows "1 / 60 \<le> (of_nat h * 60 + of_nat m + of_nat s / 60 :: rat)"
proof -
  define t where "t = h * 3600 + m * 60 + s"
  have e: "(of_nat h * 60 + of_nat m + of_nat s / 60 :: rat) = of_nat t / 60"
    by (simp add: t_def add_divide_distrib)
  with assms have "(0 :: rat) < of_nat t" by simp
  then have "Suc 0 \<le> t" by simp
  then have "(of_nat (Suc 0) :: rat) \<le> of_nat t" by (simp only: of_nat_le_iff)
  then show ?thesis unfolding e by simp
qed

lemma unit_found:
  assumes "0 < (of_nat (unitValue (CHR ''h'') v) * 60 + of_nat (unitValue (CHR ''m'') v)
                + of_nat (unitValue (CHR ''s'') v) / 60 :: rat)"
  shows "\<exists>u ds. unitLetter u \<and> unitMatch u v = Some ds"
proof (rule ccontr)
  assume "\<not> ?thesis"
  then have "unitMatch (CHR ''h'') v = None" "unitMatch (CHR ''m'') v = None"
    "unitMatch (CHR ''s'') v = None"
    by (auto simp: unitLetter_def)
  then have "unitValue (CHR ''h'') v = 0" "unitValue (CHR ''m'') v = 0"
    "unitValue (CHR ''s'') v = 0"
    by (simp_all add: unitValue_None)
  with assms show False by simp
qed

text \<open>
  Claim C6, as amended. For every duration string in which the unit patterns (an integer,
  optional white space, then h, m or s in either case, in any order) find integers whose sum
  \<open>hours * 60 + minutes + seconds / 60\<close> is greater than zero and less than \<open>2^45\<close> (a
  unit without a match counts zero), parseMinutes returns that sum rounded to the nearest
  integer; \<open>2h 25m\<close> gives 145, \<open>49m 21s\<close> gives 49 and \<open>1h\<close> gives 60.
\<close>

theorem parseMinutes_units:
  assumes "0 < (of_nat (unitValue (CHR ''h'') (trim value)) * 60
                + of_nat (unitValue (CHR ''m'') (trim value))
                + of_nat (unitValue (CHR ''s'') (trim value)) / 60 :: rat)"
    and "(of_nat (unitValue (CHR ''h'') (trim value)) * 60
                + of_nat (unitValue (CHR ''m'') (trim value))
                + of_nat (unitValue (CHR ''s'') (trim value)) / 60 :: rat) < 2 ^ 45"
  shows "parseMinutes value =
           Some (Num (roundHalfUp (of_nat (unitValue (CHR ''h'') (trim value)) * 60
                                   + of_nat (unitValue (CHR ''m'') (trim value))
                                   + of_nat (unitValue (CHR ''s'') (trim value)) / 60)))
         \<and> parseMinutes ''2h 25m'' = Some (Num 145)
         \<and> parseMinutes ''49m 21s'' = Some (Num 49)
         \<and> parseMinutes ''1h'' = Some (Num 60)"
proof (intro conjI)
  let ?sum = "of_nat (unitValue (CHR ''h'') (trim value)) * 60
                + of_nat (unitValue (CHR ''m'') (trim value))
                + of_nat (unitValue (CHR ''s'') (trim value)) / 60 :: rat"
  obtain u ds where u: "unitLetter u" "unitMatch u (trim value) = Some ds"
    using unit_found [OF assms(1)] by blast
  have c: "hmsMatch (trim value) = None" "trim value \<noteq> []"
    using u unit_excludes_clock unitMatch_nonempty by blast+
  obtain x where x: "unitSum (trim value) = Num x" "\<bar>x - ?sum\<bar> \<le> 3 / 512"
    "roundHalfUp x = roundHalfUp ?sum"
    using unitSum_value [OF assms(2)] by blast
  from x(2) have "?sum - x \<le> 3 / 512" by (simp only: abs_le_iff minus_diff_eq)
  with sum_positive [OF assms(1)] have "0 < x" by linarith
  then have "parseMinutes value = Some (Math_round (Num x))"
    using c x(1) by (simp add: parseMinutes_def parseNonEmpty_def unitsOrNumber_def)
  then show "parseMinutes value = Some (Num (roundHalfUp ?sum))"
    by (simp add: Math_round_def x(3))
  show "parseMinutes ''2h 25m'' = Some (Num 145)" by code_simp
  show "parseMinutes ''49m 21s'' = Some (Num 49)" by code_simp
  show "parseMinutes ''1h'' = Some (Num 60)" by code_simp
qed

theorem parseMinutes_units_witness:
  "0 < (of_nat (unitValue (CHR ''h'') (trim '' 3H 7 m 40s'')) * 60
        + of_nat (unitValue (CHR ''m'') (trim '' 3H 7 m 40s''))
        + of_nat (unitValue (CHR ''s'') (trim '' 3H 7 m 40s'')) / 60 :: rat)
   \<and> (of_nat (unitValue (CHR ''h'') (trim '' 3H 7 m 40s'')) * 60
        + of_nat (unitValue (CHR ''m'') (trim '' 3H 7 m 40s''))
        + of_nat (unitValue (CHR ''s'') (trim '' 3H 7 m 40s'')) / 60 :: rat) < 2 ^ 45
   \<and> parseMinutes '' 3H 7 m 40s'' = Some (Num 188)"
proof -
  have h: "0 < (of_nat (unitValue (CHR ''h'') (trim '' 3H 7 m 40s'')) * 60
        + of_nat (unitValue (CHR ''m'') (trim '' 3H 7 m 40s''))
        + of_nat (unitValue (CHR ''s'') (trim '' 3H 7 m 40s'')) / 60 :: rat)"
    by code_simp
  have b: "(of_nat (unitValue (CHR ''h'') (trim '' 3H 7 m 40s'')) * 60
        + of_nat (unitValue (CHR ''m'') (trim '' 3H 7 m 40s''))
        + of_nat (unitValue (CHR ''s'') (trim '' 3H 7 m 40s'')) / 60 :: rat) < 2 ^ 45"
    by code_simp
  have v: "roundHalfUp (of_nat (unitValue (CHR ''h'') (trim '' 3H 7 m 40s'')) * 60
        + of_nat (unitValue (CHR ''m'') (trim '' 3H 7 m 40s''))
        + of_nat (unitValue (CHR ''s'') (trim '' 3H 7 m 40s'')) / 60) = 188"
    by code_simp
  from parseMinutes_units [OF h b] v have "parseMinutes '' 3H 7 m 40s'' = Some (Num 188)"
    by simp
  with h b show ?thesis by (intro conjI)
qed

text \<open>
  The claim as first stated fails for integers beyond the exact range of a double: the
  pattern finds \<open>2^53 + 1\<close> before the letter m, \<^verbatim>\<open>Number\<close> rounds it to the double
  \<open>2^53\<close>, and parseMinutes returns \<open>2^53\<close> where the rounded sum is \<open>2^53 + 1\<close>. It
  fails as well where the sum is zero: \<open>0m\<close> holds the integer 0 before the letter m, the
  rounded sum is 0, and parseMinutes returns null.
\<close>

theorem parseMinutes_units_inexact:
  "unitMatch (CHR ''m'') ''9007199254740993m'' = Some ''9007199254740993''
   \<and> roundHalfUp (of_nat (unitValue (CHR ''h'') ''9007199254740993m'') * 60
                   + of_nat (unitValue (CHR ''m'') ''9007199254740993m'')
                   + of_nat (unitValue (CHR ''s'') ''9007199254740993m'') / 60) = 9007199254740993
   \<and> parseMinutes ''9007199254740993m'' = Some (Num 9007199254740992)
   \<and> unitMatch (CHR ''m'') ''0m'' = Some ''0'' \<and> unitValue (CHR ''m'') ''0m'' = 0
   \<and> parseMinutes ''0m'' = None"
proof (intro conjI)
  show "unitMatch (CHR ''m'') ''9007199254740993m'' = Some ''9007199254740993''" by code_simp
  show "roundHalfUp (of_nat (unitValue (CHR ''h'') ''9007199254740993m'') * 60
                   + of_nat (unitValue (CHR ''m'') ''9007199254740993m'')
                   + of_nat (unitValue (CHR ''s'') ''9007199254740993m'') / 60) = 9007199254740993"
    by code_simp
  show "parseMinutes ''9007199254740993m'' = Some (Num 9007199254740992)" by code_simp
  show "unitMatch (CHR ''m'') ''0m'' = Some ''0''" by code_simp
  show "unitValue (CHR ''m'') ''0m'' = 0" by code_simp
  show "parseMinutes ''0m'' = None" by code_simp
qed

subsection \<open>The bare number\<close>

lemma unitSum_none:
  assumes "unitMatch (CHR ''h'') v = None" "unitMatch (CHR ''m'') v = None"
    "unitMatch (CHR ''s'') v = None"
  shows "unitSum v = Num 0"
  by (simp add: unitSum_def assms)

lemma parseMinutes_number:
  assumes "trim value \<noteq> []" "hmsMatch (trim value) = None"
    "unitMatch (CHR ''h'') (trim value) = None" "unitMatch (CHR ''m'') (trim value) = None"
    "unitMatch (CHR ''s'') (trim value) = None"
  shows "parseMinutes value = roundOrNull (Number (trim value))"
  using assms
  by (simp add: parseMinutes_def parseNonEmpty_def unitsOrNumber_def unitSum_none numberOrNull_def)

lemma roundOrNull_if:
  "roundOrNull n = (if n = NaN then None else Some (Math_round n))"
  by (cases n) simp_all

text \<open>
  Claim C7, as amended. When a duration string matches neither the clock pattern nor a unit
  pattern, parseMinutes converts the whole trimmed string with \<^verbatim>\<open>Number\<close> and rounds
  the double it gets to the nearest integer. A string of digits with a value below \<open>2^53\<close>
  gives that value (\<open>42\<close> gives 42), and digits with a decimal point among them, at most 15
  digits in all, give the value of the numeral rounded to the nearest integer. What
  \<^verbatim>\<open>Number\<close> does not read, such as \<open>45:00\<close>, gives null, and so does the empty
  string; neither gives 0.
\<close>

theorem parseMinutes_fallback:
  "(trim value \<noteq> [] \<and> hmsMatch (trim value) = None \<and> unitMatch (CHR ''h'') (trim value) = None
      \<and> unitMatch (CHR ''m'') (trim value) = None \<and> unitMatch (CHR ''s'') (trim value) = None
      \<longrightarrow> parseMinutes value =
            (if Number (trim value) = NaN then None else Some (Math_round (Number (trim value)))))
   \<and> (trim value \<noteq> [] \<and> list_all isDigit (trim value) \<and> decimalValue (trim value) < 2 ^ 53
      \<longrightarrow> parseMinutes value = Some (Num (of_nat (decimalValue (trim value)))))
   \<and> (trim value = ip @ ''.'' @ fp \<and> ip \<noteq> [] \<and> list_all isDigit ip \<and> list_all isDigit fp
      \<and> length ip + length fp \<le> 15
      \<longrightarrow> parseMinutes value =
            Some (Num (roundHalfUp (of_nat (decimalValue ip)
                                    + of_nat (decimalValue fp) / 10 ^ length fp))))
   \<and> (trim value = [] \<longrightarrow> parseMinutes value = None)
   \<and> parseMinutes ''42'' = Some (Num 42)
   \<and> parseMinutes [] = None
   \<and> parseMinutes ''45:00'' = None"
proof (intro conjI impI)
  assume a: "trim value \<noteq> [] \<and> hmsMatch (trim value) = None \<and> unitMatch (CHR ''h'') (trim value) = None
      \<and> unitMatch (CHR ''m'') (trim value) = None \<and> unitMatch (CHR ''s'') (trim value) = None"
  then show "parseMinutes value =
            (if Number (trim value) = NaN then None else Some (Math_round (Number (trim value))))"
    by (simp add: parseMinutes_number roundOrNull_if)
next
  assume d: "trim value \<noteq> [] \<and> list_all isDigit (trim value) \<and> decimalValue (trim value) < 2 ^ 53"
  then have "parseMinutes value = roundOrNull (Number (trim value))"
    by (intro parseMinutes_number) (simp_all add: hmsMatch_digits unitMatch_digits unitLetter_def)
  also have "Number (trim value) = Num (of_nat (decimalValue (trim value)))"
    using d by (intro Number_nat) simp_all
  finally show "parseMinutes value = Some (Num (of_nat (decimalValue (trim value))))"
    by (simp add: Math_round_def roundHalfUp_nat)
next
  assume p: "trim value = ip @ ''.'' @ fp \<and> ip \<noteq> [] \<and> list_all isDigit ip \<and> list_all isDigit fp
      \<and> length ip + length fp \<le> 15"
  then have t: "trim value = ip @ CHR ''.'' # fp" by simp
  define A where "A = decimalValue (ip @ fp)"
  define x :: rat where "x = of_nat (decimalValue ip) + of_nat (decimalValue fp) / 10 ^ length fp"
  have "list_all isDigit (ip @ fp)" using p by simp
  from decimalValue_bound [OF this] have "A < 10 ^ (length ip + length fp)" by (simp add: A_def)
  moreover have "(10 :: nat) ^ (length ip + length fp) \<le> 10 ^ 15"
    using p by (intro power_increasing) simp_all
  ultimately have A: "A < 10 ^ 15" by simp
  have k: "length fp \<le> 15" using p by simp
  have "(of_nat A :: rat) = of_nat (decimalValue ip) * 10 ^ length fp + of_nat (decimalValue fp)"
    by (simp add: A_def decimalValue_append)
  then have x: "of_nat A / 10 ^ length fp = x"
    by (simp add: x_def add_divide_distrib)
  have n: "Number (trim value) = toDouble x"
    unfolding t x_def using p by (intro Number_point) simp_all
  have q: "ip \<noteq> []" "list_all isDigit ip" "list_all isDigit fp" using p by simp_all
  have "parseMinutes value = roundOrNull (Number (trim value))"
    by (rule parseMinutes_number)
      (simp_all add: t q hmsMatch_point unitMatch_point unitLetter_def)
  also have "\<dots> = Some (Math_round (toDouble x))"
    unfolding n by (rule roundOrNull_Some) (rule toDouble_not_NaN)
  also have "Math_round (toDouble x) = Num (roundHalfUp x)"
    using decimal_round [OF A k] by (simp only: x)
  finally show "parseMinutes value =
            Some (Num (roundHalfUp (of_nat (decimalValue ip)
                                    + of_nat (decimalValue fp) / 10 ^ length fp)))"
    by (simp only: x_def)
next
  assume "trim value = []"
  then show "parseMinutes value = None" by (simp add: parseMinutes_def parseNonEmpty_def)
next
  show "parseMinutes ''42'' = Some (Num 42)" by code_simp
  show "parseMinutes [] = None" by code_simp
  show "parseMinutes ''45:00'' = None" by code_simp
qed

theorem parseMinutes_fallback_witness:
  "trim '' 7.5 '' \<noteq> [] \<and> hmsMatch (trim '' 7.5 '') = None
   \<and> unitMatch (CHR ''h'') (trim '' 7.5 '') = None \<and> unitMatch (CHR ''m'') (trim '' 7.5 '') = None
   \<and> unitMatch (CHR ''s'') (trim '' 7.5 '') = None
   \<and> trim '' 7.5 '' = ''7'' @ ''.'' @ ''5''
   \<and> parseMinutes '' 7.5 '' = Some (Num 8)
   \<and> list_all isDigit (trim '' 120 '') \<and> parseMinutes '' 120 '' = Some (Num 120)
   \<and> trim ''  '' = [] \<and> parseMinutes ''  '' = None"
proof -
  have h: "trim '' 7.5 '' \<noteq> [] \<and> hmsMatch (trim '' 7.5 '') = None
   \<and> unitMatch (CHR ''h'') (trim '' 7.5 '') = None \<and> unitMatch (CHR ''m'') (trim '' 7.5 '') = None
   \<and> unitMatch (CHR ''s'') (trim '' 7.5 '') = None"
    by code_simp
  have n: "(if Number (trim '' 7.5 '') = NaN then None else Some (Math_round (Number (trim '' 7.5 ''))))
            = Some (Num 8)"
    by code_simp
  have p: "trim '' 7.5 '' = ''7'' @ ''.'' @ ''5'' \<and> ''7'' \<noteq> [] \<and> list_all isDigit ''7''
            \<and> list_all isDigit ''5'' \<and> length ''7'' + length ''5'' \<le> 15"
    by code_simp
  have r: "roundHalfUp (of_nat (decimalValue ''7'') + of_nat (decimalValue ''5'') / 10 ^ length ''5'')
           = 8"
    by code_simp
  have d: "trim '' 120 '' \<noteq> [] \<and> list_all isDigit (trim '' 120 '')
           \<and> decimalValue (trim '' 120 '') < 2 ^ 53"
    by code_simp
  have v: "Num (of_nat (decimalValue (trim '' 120 ''))) = Num 120" by code_simp
  have e: "trim ''  '' = []" by code_simp
  note t1 = parseMinutes_fallback [of "'' 7.5 ''" "''7''" "''5''"]
  note t2 = parseMinutes_fallback [of "'' 120 ''" "''7''" "''5''"]
  note t3 = parseMinutes_fallback [of "''  ''" "''7''" "''5''"]
  from t1 h n have 1: "parseMinutes '' 7.5 '' = Some (Num 8)" by simp
  from t1 p r have 4: "parseMinutes '' 7.5 '' = Some (Num 8)" by simp
  from t2 d v have 2: "parseMinutes '' 120 '' = Some (Num 120)" by simp
  from t3 e have 3: "parseMinutes ''  '' = None" by simp
  from h p d e 1 2 3 4 show ?thesis by simp
qed

text \<open>
  The claim as first stated fails in two ways. \<open>0x1F\<close> matches no pattern and is no decimal
  number, yet \<^verbatim>\<open>Number\<close> reads it as a hexadecimal literal and parseMinutes returns 31
  where the claim gives null. \<open>9007199254740993\<close> is a bare decimal number and an integer
  already, yet \<^verbatim>\<open>Number\<close> rounds it to the double \<open>2^53\<close> and parseMinutes returns
  9007199254740992.
\<close>

theorem parseMinutes_not_decimal:
  "hmsMatch ''0x1F'' = None \<and> unitMatch (CHR ''h'') ''0x1F'' = None
   \<and> unitMatch (CHR ''m'') ''0x1F'' = None \<and> unitMatch (CHR ''s'') ''0x1F'' = None
   \<and> \<not> bareDecimal ''0x1F''
   \<and> parseMinutes ''0x1F'' = Some (Num 31)
   \<and> bareDecimal ''9007199254740993''
   \<and> decimalValue ''9007199254740993'' = 9007199254740993
   \<and> parseMinutes ''9007199254740993'' = Some (Num 9007199254740992)"
proof (intro conjI)
  show "hmsMatch ''0x1F'' = None" by code_simp
  show "unitMatch (CHR ''h'') ''0x1F'' = None" by code_simp
  show "unitMatch (CHR ''m'') ''0x1F'' = None" by code_simp
  show "unitMatch (CHR ''s'') ''0x1F'' = None" by code_simp
  show "\<not> bareDecimal ''0x1F''" by code_simp
  show "parseMinutes ''0x1F'' = Some (Num 31)" by code_simp
  show "bareDecimal ''9007199254740993''" by code_simp
  show "decimalValue ''9007199254740993'' = 9007199254740993" by code_simp
  show "parseMinutes ''9007199254740993'' = Some (Num 9007199254740992)" by code_simp
qed


section \<open>Properties of the import route\<close>

lemma normIntake_empty: "normIntake v = [] \<longleftrightarrow> trim v = []"
  by (auto simp: normIntake_def Let_def toLowerCase_def)

lemma POST_importFile:
  assumes "normIntake (orEmpty (intakeField req)) = itk" "itk \<noteq> []"
    and "Number (orEmpty (yearField req)) = yr" "yr \<noteq> Num 0" "yr \<noteq> NaN"
    and "fileField req = Some f"
    and "resolveModuleCode (orEmpty (moduleCodeField req)) (fileName f) = Some mc"
  shows "POST env req st = importFile env itk yr mc (splitLines (fileText f)) st"
  using assms by (simp add: POST_def Let_def)

text \<open>Every way out of the route.\<close>

lemma POST_cases:
  "POST env req st = (Failure 400 errIntakeYear, st)
   \<or> POST env req st = (Failure 400 errNoFile, st)
   \<or> POST env req st = (Failure 400 errModuleCode, st)
   \<or> (\<exists>f mc. fileField req = Some f
         \<and> resolveModuleCode (orEmpty (moduleCodeField req)) (fileName f) = Some mc
         \<and> normIntake (orEmpty (intakeField req)) \<noteq> []
         \<and> Number (orEmpty (yearField req)) \<noteq> Num 0 \<and> Number (orEmpty (yearField req)) \<noteq> NaN
         \<and> POST env req st = importFile env (normIntake (orEmpty (intakeField req)))
                                (Number (orEmpty (yearField req))) mc (splitLines (fileText f)) st)"
  by (auto simp: POST_def Let_def split: option.splits)

lemma locateSection2_msgs:
  "locateSection2 lines = Inl m \<Longrightarrow> m = errSection2 \<or> m = errHeader \<or> m = errColumns"
  by (auto simp: locateSection2_def Let_def split: option.splits if_splits)

lemma importFile_failure:
  assumes "fst (importFile env itk yr mc lines st) = Failure c m"
  shows "c = 400 \<and> (m = errSection2 \<or> m = errHeader \<or> m = errColumns)"
proof (cases "locateSection2 lines")
  case (Inl msg)
  with assms locateSection2_msgs [OF Inl] show ?thesis
    by (cases "writeSession env itk yr mc lines st") (auto simp: importFile_def)
next
  case (Inr w)
  with assms show ?thesis
    by (cases "writeSession env itk yr mc lines st"; cases w) (auto simp: importFile_def Let_def)
qed

lemma errIntakeYear_distinct:
  "errIntakeYear \<noteq> errNoFile" "errIntakeYear \<noteq> errModuleCode" "errIntakeYear \<noteq> errSection2"
  "errIntakeYear \<noteq> errHeader" "errIntakeYear \<noteq> errColumns"
  by (simp_all add: errIntakeYear_def errNoFile_def errModuleCode_def errSection2_def errHeader_def
      errColumns_def)

lemma importFile_echo:
  assumes "fst (importFile env itk yr mc lines st) = Success b"
  shows "ok_intake b = itk \<and> ok_year b = yr \<and> ok_moduleCode b = mc"
proof (cases "locateSection2 lines")
  case (Inl msg)
  with assms show ?thesis
    by (cases "writeSession env itk yr mc lines st") (auto simp: importFile_def)
next
  case (Inr w)
  with assms show ?thesis
    by (cases "writeSession env itk yr mc lines st"; cases w) (auto simp: importFile_def Let_def)
qed

lemma POST_echo:
  assumes "fst (POST env req st) = Success b"
  shows "ok_intake b = normIntake (orEmpty (intakeField req))
         \<and> ok_year b = Number (orEmpty (yearField req))"
  using POST_cases [of env req st] assms importFile_echo by fastforce

text \<open>What normIntake makes of its argument.\<close>

lemma lowerChar_letter:
  assumes "97 \<le> cu d" "cu d \<le> 122"
  shows "lowerChar c = d \<longleftrightarrow> c = d \<or> c = char_of (cu d - 32)"
proof -
  have c: "cu c < 256" by (simp add: cu_def)
  show ?thesis
    using assms c unfolding lowerChar_def char_eq_cu [of _ d] char_eq_cu [of c] cu_char_of
    by (auto simp: cu_char_of)
qed

lemma toLowerCase_word:
  assumes "list_all (\<lambda>d. 97 \<le> cu d \<and> cu d \<le> 122) w"
  shows "toLowerCase s = w \<longleftrightarrow> matchesWord s w"
  using assms
proof (induction s arbitrary: w)
  case Nil
  then show ?case by (auto simp: toLowerCase_def matchesWord_def)
next
  case (Cons c s)
  show ?case
  proof (cases w)
    case Nil
    then show ?thesis by (simp add: toLowerCase_def matchesWord_def)
  next
    case (Cons d w')
    with Cons.prems have d: "97 \<le> cu d" "cu d \<le> 122"
      and w': "list_all (\<lambda>d. 97 \<le> cu d \<and> cu d \<le> 122) w'" by simp_all
    from Cons.IH [OF w'] have "toLowerCase s = w' \<longleftrightarrow> matchesWord s w'" .
    then show ?thesis
      using lowerChar_letter [OF d, of c]
      by (simp add: Cons toLowerCase_def matchesWord_def)
  qed
qed

lemma intake_words:
  "toLowerCase s = ''spring'' \<longleftrightarrow> matchesWord s ''spring''"
  "toLowerCase s = ''summer'' \<longleftrightarrow> matchesWord s ''summer''"
  "toLowerCase s = ''autumn'' \<longleftrightarrow> matchesWord s ''autumn''"
  "toLowerCase s = ''fall'' \<longleftrightarrow> matchesWord s ''fall''"
  by (rule toLowerCase_word; simp add: cu_def)+

lemma words_differ:
  "matchesWord s ''spring'' \<Longrightarrow> \<not> matchesWord s ''summer''"
  "matchesWord s ''spring'' \<Longrightarrow> \<not> matchesWord s ''autumn''"
  "matchesWord s ''spring'' \<Longrightarrow> \<not> matchesWord s ''fall''"
  "matchesWord s ''summer'' \<Longrightarrow> \<not> matchesWord s ''autumn''"
  "matchesWord s ''summer'' \<Longrightarrow> \<not> matchesWord s ''fall''"
  unfolding intake_words [symmetric] by auto

lemma sample_import_winter:
  "fst (POST sampleRuntime (sampleRequest\<lparr>intakeField := Some ''Winter'', yearField := Some ''-5''\<rparr>)
            emptyStore)
      = Success \<lparr>ok_moduleCode = ''MN5070NU'', ok_intake = ''Winter'', ok_year = Num (- 5),
                  ok_sessionId = 0, ok_rowsRead = 3, ok_attendanceUpserted = 3,
                  ok_eligibleCount = 1, ok_durationMin = None\<rparr>"
proof -
  let ?req = "sampleRequest\<lparr>intakeField := Some ''Winter'', yearField := Some ''-5''\<rparr>"
  let ?f = "\<lparr>fileName = ''attendance MN5070NU.csv'', fileText = sampleText\<rparr>"
  have 1: "normIntake ''Winter'' = ''Winter''" by code_simp
  have 2: "Number ''-5'' = Num (- 5)" by code_simp
  have 3: "resolveModuleCode [] ''attendance MN5070NU.csv'' = Some ''MN5070NU''"
    by code_simp
  have p: "POST sampleRuntime ?req emptyStore
           = importFile sampleRuntime ''Winter'' (Num (- 5)) ''MN5070NU'' (splitLines (fileText ?f)) emptyStore"
    by (rule POST_importFile [where f = ?f])
       (simp_all add: 1 2 3 sampleRequest_def orEmpty_def)
  have e: "fst (importFile sampleRuntime ''Winter'' (Num (- 5)) ''MN5070NU'' (splitLines (fileText ?f)) emptyStore)
      = Success \<lparr>ok_moduleCode = ''MN5070NU'', ok_intake = ''Winter'', ok_year = Num (- 5),
                  ok_sessionId = 0, ok_rowsRead = 3, ok_attendanceUpserted = 3,
                  ok_eligibleCount = 1, ok_durationMin = None\<rparr>"
    by code_simp
  show ?thesis using p e by simp
qed

text \<open>
  Claim C3, as amended. The route answers 400 with the intake/year message exactly when the
  intake field is empty after trimming or the year field converts to 0 or to NaN, and it does
  so before it looks at the file: the answer is the same for every file, and the store is
  left as it was. Every other intake and year pass this check: an intake that is, after
  trimming and without regard to case, \<open>spring\<close>, \<open>summer\<close>, \<open>autumn\<close> or \<open>fall\<close> becomes
  Spring, Summer, Autumn and again Autumn, any other intake is kept as trimmed, and a
  successful import answers with that intake and with the year as converted.
\<close>

theorem POST_rejects_intake_year:
  "(fst (POST env req st) = Failure 400 errIntakeYear
      \<longleftrightarrow> trim (orEmpty (intakeField req)) = [] \<or> Number (orEmpty (yearField req)) = Num 0
          \<or> Number (orEmpty (yearField req)) = NaN)
   \<and> (trim (orEmpty (intakeField req)) = [] \<or> Number (orEmpty (yearField req)) = Num 0
          \<or> Number (orEmpty (yearField req)) = NaN
        \<longrightarrow> POST env (req\<lparr>fileField := f\<rparr>) st = (Failure 400 errIntakeYear, st))
   \<and> (matchesWord (trim v) ''spring'' \<longrightarrow> normIntake v = ''Spring'')
   \<and> (matchesWord (trim v) ''summer'' \<longrightarrow> normIntake v = ''Summer'')
   \<and> (matchesWord (trim v) ''autumn'' \<or> matchesWord (trim v) ''fall'' \<longrightarrow> normIntake v = ''Autumn'')
   \<and> (\<not> matchesWord (trim v) ''spring'' \<and> \<not> matchesWord (trim v) ''summer''
        \<and> \<not> matchesWord (trim v) ''autumn'' \<and> \<not> matchesWord (trim v) ''fall''
        \<longrightarrow> normIntake v = trim v)
   \<and> (fst (POST env req st) = Success b
        \<longrightarrow> ok_intake b = normIntake (orEmpty (intakeField req))
            \<and> ok_year b = Number (orEmpty (yearField req)))"
proof (intro conjI iffI impI)
  assume a: "fst (POST env req st) = Failure 400 errIntakeYear"
  show "trim (orEmpty (intakeField req)) = [] \<or> Number (orEmpty (yearField req)) = Num 0
          \<or> Number (orEmpty (yearField req)) = NaN"
  proof (rule ccontr)
    assume n: "\<not> ?thesis"
    then have p: "POST env req st =
        (case fileField req of
           None \<Rightarrow> (Failure 400 errNoFile, st)
         | Some f \<Rightarrow>
             (case resolveModuleCode (orEmpty (moduleCodeField req)) (fileName f) of
                None \<Rightarrow> (Failure 400 errModuleCode, st)
              | Some mc \<Rightarrow> importFile env (normIntake (orEmpty (intakeField req)))
                             (Number (orEmpty (yearField req))) mc (splitLines (fileText f)) st))"
      by (simp add: POST_def Let_def normIntake_empty)
    show False
    proof (cases "fileField req")
      case None
      with a p errIntakeYear_distinct show False by simp
    next
      case (Some f)
      show False
      proof (cases "resolveModuleCode (orEmpty (moduleCodeField req)) (fileName f)")
        case None
        with a p Some errIntakeYear_distinct show False by simp
      next
        case (Some mc)
        with a p \<open>fileField req = Some f\<close>
        have "fst (importFile env (normIntake (orEmpty (intakeField req)))
                 (Number (orEmpty (yearField req))) mc (splitLines (fileText f)) st)
              = Failure 400 errIntakeYear" by simp
        from importFile_failure [OF this] errIntakeYear_distinct show False by simp
      qed
    qed
  qed
next
  assume "trim (orEmpty (intakeField req)) = [] \<or> Number (orEmpty (yearField req)) = Num 0
          \<or> Number (orEmpty (yearField req)) = NaN"
  then show "fst (POST env req st) = Failure 400 errIntakeYear"
    by (auto simp: POST_def Let_def normIntake_empty)
next
  assume "trim (orEmpty (intakeField req)) = [] \<or> Number (orEmpty (yearField req)) = Num 0
          \<or> Number (orEmpty (yearField req)) = NaN"
  then show "POST env (req\<lparr>fileField := f\<rparr>) st = (Failure 400 errIntakeYear, st)"
    by (auto simp: POST_def Let_def normIntake_empty)
next
  assume "matchesWord (trim v) ''spring''"
  then show "normIntake v = ''Spring''"
    by (simp add: normIntake_def Let_def intake_words)
next
  assume a: "matchesWord (trim v) ''summer''"
  then have "\<not> matchesWord (trim v) ''spring''" using words_differ by blast
  with a show "normIntake v = ''Summer''"
    by (simp add: normIntake_def Let_def intake_words)
next
  assume a: "matchesWord (trim v) ''autumn'' \<or> matchesWord (trim v) ''fall''"
  then have "\<not> matchesWord (trim v) ''spring''" "\<not> matchesWord (trim v) ''summer''"
    using words_differ by blast+
  with a show "normIntake v = ''Autumn''"
    by (simp add: normIntake_def Let_def intake_words)
next
  assume "\<not> matchesWord (trim v) ''spring'' \<and> \<not> matchesWord (trim v) ''summer''
        \<and> \<not> matchesWord (trim v) ''autumn'' \<and> \<not> matchesWord (trim v) ''fall''"
  then show "normIntake v = trim v"
    by (simp add: normIntake_def Let_def intake_words)
next
  assume "fst (POST env req st) = Success b"
  from POST_echo [OF this]
  show "ok_intake b = normIntake (orEmpty (intakeField req))" 
    and "ok_year b = Number (orEmpty (yearField req))" by simp_all
qed

theorem POST_rejects_witness:
  "Number (orEmpty (yearField (sampleRequest\<lparr>yearField := Some ''year''\<rparr>))) = NaN
   \<and> POST sampleRuntime (sampleRequest\<lparr>yearField := Some ''year''\<rparr>) emptyStore
       = (Failure 400 errIntakeYear, emptyStore)
   \<and> matchesWord (trim '' SPRING'') ''spring'' \<and> normIntake '' SPRING'' = ''Spring''
   \<and> matchesWord (trim ''Summer '') ''summer'' \<and> normIntake ''Summer '' = ''Summer''
   \<and> matchesWord (trim ''autumn'') ''autumn'' \<and> normIntake ''autumn'' = ''Autumn''
   \<and> matchesWord (trim ''FaLL'') ''fall'' \<and> normIntake ''FaLL'' = ''Autumn''
   \<and> \<not> matchesWord (trim '' Winter '') ''spring'' \<and> \<not> matchesWord (trim '' Winter '') ''summer''
   \<and> \<not> matchesWord (trim '' Winter '') ''autumn'' \<and> \<not> matchesWord (trim '' Winter '') ''fall''
   \<and> normIntake '' Winter '' = ''Winter''
   \<and> ok_intake \<lparr>ok_moduleCode = ''MN5070NU'', ok_intake = ''Winter'', ok_year = Num (- 5),
                  ok_sessionId = 0, ok_rowsRead = 3, ok_attendanceUpserted = 3,
                  ok_eligibleCount = 1, ok_durationMin = None\<rparr>
       = normIntake (orEmpty (intakeField
           (sampleRequest\<lparr>intakeField := Some ''Winter'', yearField := Some ''-5''\<rparr>)))"
proof -
  let ?bad = "sampleRequest\<lparr>yearField := Some ''year''\<rparr>"
  let ?req = "sampleRequest\<lparr>intakeField := Some ''Winter'', yearField := Some ''-5''\<rparr>"
  let ?b = "\<lparr>ok_moduleCode = ''MN5070NU'', ok_intake = ''Winter'', ok_year = Num (- 5),
                  ok_sessionId = 0, ok_rowsRead = 3, ok_attendanceUpserted = 3,
                  ok_eligibleCount = 1, ok_durationMin = None\<rparr>"
  have h: "Number (orEmpty (yearField ?bad)) = NaN"
    by code_simp
  have r: "?bad\<lparr>fileField := fileField sampleRequest\<rparr> = ?bad"
    by simp
  have 1: "matchesWord (trim '' SPRING'') ''spring''" by code_simp
  have 2: "matchesWord (trim ''Summer '') ''summer''" by code_simp
  have 3: "matchesWord (trim ''autumn'') ''autumn''" by code_simp
  have 4: "matchesWord (trim ''FaLL'') ''fall''" by code_simp
  have 5: "\<not> matchesWord (trim '' Winter '') ''spring'' \<and> \<not> matchesWord (trim '' Winter '') ''summer''
   \<and> \<not> matchesWord (trim '' Winter '') ''autumn'' \<and> \<not> matchesWord (trim '' Winter '') ''fall''"
    by code_simp
  have 6: "trim '' Winter '' = ''Winter''" by code_simp
  from POST_rejects_intake_year [of sampleRuntime ?bad emptyStore "fileField sampleRequest"] h r
  have a: "POST sampleRuntime ?bad emptyStore = (Failure 400 errIntakeYear, emptyStore)"
    by simp
  from POST_rejects_intake_year [where v = "'' SPRING''"] 1
  have b: "normIntake '' SPRING'' = ''Spring''" by blast
  from POST_rejects_intake_year [where v = "''Summer ''"] 2
  have c: "normIntake ''Summer '' = ''Summer''" by blast
  from POST_rejects_intake_year [where v = "''autumn''"] 3
  have d: "normIntake ''autumn'' = ''Autumn''" by blast
  from POST_rejects_intake_year [where v = "''FaLL''"] 4
  have e: "normIntake ''FaLL'' = ''Autumn''" by blast
  from POST_rejects_intake_year [where v = "'' Winter ''"] 5 6
  have f: "normIntake '' Winter '' = ''Winter''" by simp
  from POST_rejects_intake_year [of sampleRuntime ?req emptyStore _ _ ?b] sample_import_winter
  have g: "ok_intake ?b = normIntake (orEmpty (intakeField ?req))" by blast
  from h a 1 b 2 c 3 d 4 e 5 f g show ?thesis by (intro conjI) simp_all
qed

text \<open>
  The claim as first stated fails: \<open>Winter\<close> is none of Spring, Summer and Autumn, and
  \<open>-5\<close> is no positive integer, yet the import goes through.
\<close>

theorem POST_accepts_other_intake:
  "normIntake ''Winter'' = ''Winter''
   \<and> Number ''-5'' = Num (- 5)
   \<and> fst (POST sampleRuntime (sampleRequest\<lparr>intakeField := Some ''Winter'', yearField := Some ''-5''\<rparr>)
            emptyStore)
      = Success \<lparr>ok_moduleCode = ''MN5070NU'', ok_intake = ''Winter'', ok_year = Num (- 5),
                  ok_sessionId = 0, ok_rowsRead = 3, ok_attendanceUpserted = 3,
                  ok_eligibleCount = 1, ok_durationMin = None\<rparr>"
proof (intro conjI)
  show "normIntake ''Winter'' = ''Winter''" by code_simp
  show "Number ''-5'' = Num (- 5)" by code_simp
  show "fst (POST sampleRuntime (sampleRequest\<lparr>intakeField := Some ''Winter'', yearField := Some ''-5''\<rparr>)
            emptyStore)
      = Success \<lparr>ok_moduleCode = ''MN5070NU'', ok_intake = ''Winter'', ok_year = Num (- 5),
                  ok_sessionId = 0, ok_rowsRead = 3, ok_attendanceUpserted = 3,
                  ok_eligibleCount = 1, ok_durationMin = None\<rparr>"
    by (rule sample_import_winter)
qed


lemma participantRow_counted: "participantRow env cols i l \<noteq> None \<longleftrightarrow> countedLine l"
  by (auto simp: participantRow_def countedLine_def Let_def)

lemma rowStep_counters:
  "rowsRead (rowStep env sid cols lines i pr) = rowsRead pr + (if countedLine (lines ! i) then 1 else 0)"
  "attendanceUpserted (rowStep env sid cols lines i pr)
     = attendanceUpserted pr + (if countedLine (lines ! i) then 1 else 0)"
  using participantRow_counted [of env cols i "lines ! i"]
  by (auto simp: rowStep_def Let_def split: option.splits prod.splits)

lemma fold_rowStep_counters:
  "rowsRead (fold (rowStep env sid cols lines) js pr)
     = rowsRead pr + length (filter (\<lambda>i. countedLine (lines ! i)) js)
   \<and> attendanceUpserted (fold (rowStep env sid cols lines) js pr)
     = attendanceUpserted pr + length (filter (\<lambda>i. countedLine (lines ! i)) js)"
  by (induction js arbitrary: pr) (simp_all add: rowStep_counters)

lemma importFile_success:
  assumes "fst (importFile env itk yr mc lines st) = Success b"
  shows "\<exists>h e cols. locateSection2 lines = Inr (h, e, cols)
           \<and> ok_rowsRead b = length (filter (\<lambda>i. countedLine (lines ! i)) [h + 1 ..< e])
           \<and> ok_attendanceUpserted b = length (filter (\<lambda>i. countedLine (lines ! i)) [h + 1 ..< e])"
proof (cases "locateSection2 lines")
  case (Inl msg)
  with assms show ?thesis
    by (cases "writeSession env itk yr mc lines st") (simp add: importFile_def)
next
  case (Inr w)
  obtain h e cols where w: "w = (h, e, cols)" by (cases w) auto
  obtain session st2 where ws: "writeSession env itk yr mc lines st = (session, st2)"
    by (cases "writeSession env itk yr mc lines st") auto
  from assms show ?thesis
    unfolding importFile_def Inr w ws
    by (auto simp: Let_def fold_rowStep_counters)
qed

text \<open>
  Claim C10. On every successful answer rowsRead and attendanceUpserted are equal: both are
  the number of lines of the Section 2 window that are not blank and have at least two
  tab-separated fields, also when such lines share an email and meet in one Attendance row.
\<close>

theorem import_counters_agree:
  assumes "fst (POST env req st) = Success b"
  shows "ok_rowsRead b = ok_attendanceUpserted b
         \<and> (\<exists>h e cols. locateSection2 (uploadLines req) = Inr (h, e, cols)
               \<and> ok_rowsRead b
                   = length (filter (\<lambda>i. countedLine (uploadLines req ! i)) [h + 1 ..< e]))"
proof -
  from POST_cases [of env req st] assms
  obtain f mc itk yr where f: "fileField req = Some f"
    and p: "POST env req st = importFile env itk yr mc (splitLines (fileText f)) st"
    by auto
  from f have u: "uploadLines req = splitLines (fileText f)"
    by (simp add: uploadLines_def)
  from assms p have "fst (importFile env itk yr mc (uploadLines req) st) = Success b"
    by (simp add: u)
  from importFile_success [OF this] show ?thesis by auto
qed

theorem import_counters_witness:
  "fst (POST sampleRuntime duplicateRequest emptyStore)
     = Success \<lparr>ok_moduleCode = ''MN5070NU'', ok_intake = ''Summer'', ok_year = Num 2026,
                 ok_sessionId = 0, ok_rowsRead = 2, ok_attendanceUpserted = 2,
                 ok_eligibleCount = 2, ok_durationMin = None\<rparr>
   \<and> nextId (snd (POST sampleRuntime duplicateRequest emptyStore)) = 3"
proof -
  let ?b = "\<lparr>ok_moduleCode = ''MN5070NU'', ok_intake = ''Summer'', ok_year = Num 2026,
                 ok_sessionId = 0, ok_rowsRead = 2, ok_attendanceUpserted = 2,
                 ok_eligibleCount = 2, ok_durationMin = None\<rparr>"
  have 1: "normIntake ''Summer'' = ''Summer''" by code_simp
  have 2: "Number ''2026'' = Num 2026" by code_simp
  have 3: "resolveModuleCode ''MN5070NU'' ''report.csv'' = Some ''MN5070NU''" by code_simp
  have p: "POST sampleRuntime duplicateRequest emptyStore
           = importFile sampleRuntime ''Summer'' (Num 2026) ''MN5070NU'' (splitLines duplicateText) emptyStore"
    using POST_importFile [where f = "\<lparr>fileName = ''report.csv'', fileText = duplicateText\<rparr>"
        and req = duplicateRequest and itk = "''Summer''" and yr = "Num 2026" and mc = "''MN5070NU''"]
    by (simp add: 1 2 3 duplicateRequest_def orEmpty_def)
  have e: "fst (importFile sampleRuntime ''Summer'' (Num 2026) ''MN5070NU'' (splitLines duplicateText) emptyStore)
             = Success ?b"
    by code_simp
  have n: "nextId (snd (importFile sampleRuntime ''Summer'' (Num 2026) ''MN5070NU'' (splitLines duplicateText) emptyStore)) = 3"
    by code_simp
  have s: "fst (POST sampleRuntime duplicateRequest emptyStore) = Success ?b"
    using p e by simp
  from import_counters_agree [OF s] have "ok_rowsRead ?b = ok_attendanceUpserted ?b" by blast
  with s p n show ?thesis by simp
qed

lemma findIndex_none:
  "list_all (\<lambda>l. \<not> P l) lines \<Longrightarrow> findIndex lines P 0 = None"
  by (auto simp: findIndex_def find_None_iff list_all_iff)

lemma writeSession_rows_untouched:
  "students (snd (writeSession env itk yr mc lines st)) = students st
   \<and> attendances (snd (writeSession env itk yr mc lines st)) = attendances st"
  by (auto simp: writeSession_def session_upsert_def module_upsert_def Let_def split: option.splits)

text \<open>Without the marker the route answers 400 and leaves Student and Attendance as they were.\<close>

lemma POST_no_marker:
  assumes "list_all (\<lambda>l. trim l \<noteq> participantsMarker) (uploadLines req)"
  shows "(\<exists>msg. fst (POST env req st) = Failure 400 msg)
         \<and> students (snd (POST env req st)) = students st
         \<and> attendances (snd (POST env req st)) = attendances st"
proof -
  from POST_cases [of env req st] show ?thesis
  proof (elim disjE exE conjE)
    fix f mc
    assume f: "fileField req = Some f"
      and p: "POST env req st = importFile env (normIntake (orEmpty (intakeField req)))
                (Number (orEmpty (yearField req))) mc (splitLines (fileText f)) st"
    from f assms have "findIndex (splitLines (fileText f)) (\<lambda>l. trim l = participantsMarker) 0 = None"
      by (simp add: uploadLines_def findIndex_none)
    then have l: "locateSection2 (splitLines (fileText f)) = Inl errSection2"
      by (simp add: locateSection2_def)
    obtain s st2 where w: "writeSession env (normIntake (orEmpty (intakeField req)))
                (Number (orEmpty (yearField req))) mc (splitLines (fileText f)) st = (s, st2)"
      by (cases "writeSession env (normIntake (orEmpty (intakeField req)))
                (Number (orEmpty (yearField req))) mc (splitLines (fileText f)) st") auto
    from writeSession_rows_untouched [of env "normIntake (orEmpty (intakeField req))"
        "Number (orEmpty (yearField req))" mc "splitLines (fileText f)" st] w
    have "students st2 = students st" "attendances st2 = attendances st" by simp_all
    then show ?thesis by (simp add: p importFile_def l w)
  qed simp_all
qed

text \<open>
  Claim C1. A file without the marker line is answered with 400; the claim asks for no
  write at all, and the route has by then upserted the Module and the Session.
\<close>

theorem POST_no_marker_writes:
  "list_all (\<lambda>l. trim l \<noteq> participantsMarker) (uploadLines summaryOnlyRequest)
   \<and> fst (POST sampleRuntime summaryOnlyRequest emptyStore) = Failure 400 errSection2
   \<and> modules (snd (POST sampleRuntime summaryOnlyRequest emptyStore)) ''MN5070NU'' = Some ''MN5070NU''
   \<and> map_option session_id
        (sessions (snd (POST sampleRuntime summaryOnlyRequest emptyStore))
           ''spring|2026|mn5070nu|||weekly standup'') = Some 0
   \<and> sessions emptyStore ''spring|2026|mn5070nu|||weekly standup'' = None"
proof -
  let ?t = "''Meeting title'' @ [TAB] @ ''Weekly Standup''"
  have 0: "list_all (\<lambda>l. trim l \<noteq> participantsMarker) (uploadLines summaryOnlyRequest)"
    by code_simp
  have 1: "normIntake ''Spring'' = ''Spring''" by code_simp
  have 2: "Number ''2026'' = Num 2026" by code_simp
  have 3: "resolveModuleCode ''mn5070nu'' ''notes.txt'' = Some ''MN5070NU''" by code_simp
  have p: "POST sampleRuntime summaryOnlyRequest emptyStore
           = importFile sampleRuntime ''Spring'' (Num 2026) ''MN5070NU'' (splitLines ?t) emptyStore"
    using POST_importFile [where f = "\<lparr>fileName = ''notes.txt'', fileText = ?t\<rparr>"
        and req = summaryOnlyRequest and itk = "''Spring''" and yr = "Num 2026" and mc = "''MN5070NU''"]
    by (simp add: 1 2 3 summaryOnlyRequest_def orEmpty_def)
  have e: "fst (importFile sampleRuntime ''Spring'' (Num 2026) ''MN5070NU'' (splitLines ?t) emptyStore)
             = Failure 400 errSection2"
    "modules (snd (importFile sampleRuntime ''Spring'' (Num 2026) ''MN5070NU'' (splitLines ?t) emptyStore))
       ''MN5070NU'' = Some ''MN5070NU''"
    "map_option session_id
        (sessions (snd (importFile sampleRuntime ''Spring'' (Num 2026) ''MN5070NU'' (splitLines ?t) emptyStore))
           ''spring|2026|mn5070nu|||weekly standup'') = Some 0"
    by code_simp+
  have z: "sessions emptyStore ''spring|2026|mn5070nu|||weekly standup'' = None"
    by (simp add: emptyStore_def)
  show ?thesis using 0 p e z by simp
qed

section \<open>Decimal numerals and lower case\<close>












lemma toLowerCase_empty: "toLowerCase s = [] \<longleftrightarrow> s = []"
  by (simp add: toLowerCase_def)


section \<open>What the upserts leave alone\<close>

lemma student_upsert_frame:
  "modules (snd (student_upsert em nm st)) = modules st"
  "sessions (snd (student_upsert em nm st)) = sessions st"
  "attendances (snd (student_upsert em nm st)) = attendances st"
  by (simp_all add: student_upsert_def Let_def split: option.splits)

lemma attendance_upsert_frame:
  "modules (attendance_upsert sid uid p st) = modules st"
  "sessions (attendance_upsert sid uid p st) = sessions st"
  "students (attendance_upsert sid uid p st) = students st"
  by (simp_all add: attendance_upsert_def split: option.splits)

lemma store_of_rowStep:
  "store_of (rowStep env sid cols lines i pr)
     = (case participantRow env cols i (lines ! i) of
          None \<Rightarrow> store_of pr
        | Some p \<Rightarrow> writeRow sid p (store_of pr))"
  by (simp add: rowStep_def writeRow_def Let_def split: option.splits prod.splits)

lemma writeRow_frame:
  "modules (writeRow sid p st) = modules st"
  "sessions (writeRow sid p st) = sessions st"
  by (simp_all add: writeRow_def attendance_upsert_frame student_upsert_frame)







section \<open>The session key\<close>







section \<open>The row loop on the store\<close>

lemma store_of_fold_rowStep:
  "store_of (fold (rowStep env sid cols lines) js pr)
     = runRows sid (rowsOf env cols lines) js (store_of pr)"
  by (induction js arbitrary: pr) (simp_all add: runRows_def store_of_rowStep rowsOf_def)

lemma runRows_Nil [simp]: "runRows sid rows [] st = st"
  by (simp add: runRows_def)

lemma runRows_Cons:
  "runRows sid rows (i # js) st =
     runRows sid rows js (case rows i of None \<Rightarrow> st | Some p \<Rightarrow> writeRow sid p st)"
  by (simp add: runRows_def)

text \<open>One counted line, component by component.\<close>

lemma writeRow_students:
  "students (writeRow sid p st) =
     (students st)(p_studentEmail p \<mapsto>
        (case students st (p_studentEmail p) of
           Some s \<Rightarrow> setName (p_name p) s
         | None \<Rightarrow> \<lparr>student_id = nextId st, email = p_studentEmail p, name = p_name p\<rparr>))"
  by (simp add: writeRow_def attendance_upsert_frame student_upsert_def setName_def Let_def
      split: option.splits)

lemma writeRow_idOf_new:
  "idOf (writeRow sid p st) (p_studentEmail p) =
     (case students st (p_studentEmail p) of Some s \<Rightarrow> student_id s | None \<Rightarrow> nextId st)"
  by (simp add: idOf_def writeRow_students setName_def split: option.splits)

lemma writeRow_idOf_old:
  "students st k \<noteq> None \<Longrightarrow> idOf (writeRow sid p st) k = idOf st k"
  by (auto simp: idOf_def writeRow_students setName_def split: option.splits)

lemma student_upsert_id:
  "student_id (fst (student_upsert em nm st)) = idOf (snd (student_upsert em nm st)) em"
  by (simp add: student_upsert_def idOf_def Let_def split: option.splits)

lemma writeRow_attendances:
  "attendances (writeRow sid p st) =
     (attendances st)((sid, idOf (writeRow sid p st) (p_studentEmail p)) \<mapsto>
        (case attendances st (sid, idOf (writeRow sid p st) (p_studentEmail p)) of
           Some a \<Rightarrow> setFields p a
         | None \<Rightarrow>
             \<lparr>attendance_id = nextId (snd (student_upsert (p_studentEmail p) (p_name p) st)),
              sessionId = sid, studentId = idOf (writeRow sid p st) (p_studentEmail p),
              emailRaw = p_emailRaw p, firstJoin = p_firstJoin p, lastLeave = p_lastLeave p,
              minutes = p_minutes p, role = p_role p, isEligible = p_isEligible p\<rparr>))"
proof -
  let ?u = "student_upsert (p_studentEmail p) (p_name p) st"
  have i: "idOf (writeRow sid p st) (p_studentEmail p) = student_id (fst ?u)"
    by (simp add: student_upsert_id idOf_def writeRow_def attendance_upsert_frame)
  show ?thesis
    unfolding i
    by (simp add: writeRow_def attendance_upsert_def student_upsert_frame setFields_def
        split: option.splits)
qed

lemma writeRow_nextId:
  "students st (p_studentEmail p) \<noteq> None
   \<Longrightarrow> attendances st (sid, idOf st (p_studentEmail p)) \<noteq> None
   \<Longrightarrow> nextId (writeRow sid p st) = nextId st"
  by (auto simp: writeRow_def attendance_upsert_def student_upsert_def idOf_def Let_def
      split: option.splits)

lemma writeRow_nextId_mono: "nextId st \<le> nextId (writeRow sid p st)"
  by (auto simp: writeRow_def attendance_upsert_def student_upsert_def Let_def
      split: option.splits)

lemma writeRow_student_kept: "students st k \<noteq> None \<Longrightarrow> students (writeRow sid p st) k \<noteq> None"
  by (simp add: writeRow_students)

lemma writeRow_attendance_kept:
  "attendances st a \<noteq> None \<Longrightarrow> attendances (writeRow sid p st) a \<noteq> None"
  by (simp add: writeRow_attendances)

lemma writeRow_covers:
  "students (writeRow sid p st) (p_studentEmail p) \<noteq> None
   \<and> attendances (writeRow sid p st) (sid, idOf (writeRow sid p st) (p_studentEmail p)) \<noteq> None"
  by (simp add: writeRow_students writeRow_attendances)

lemma runRows_student_kept:
  "students st k \<noteq> None
   \<Longrightarrow> students (runRows sid rows js st) k \<noteq> None \<and> idOf (runRows sid rows js st) k = idOf st k"
proof (induction js arbitrary: st)
  case Nil
  then show ?case by simp
next
  case (Cons i js)
  show ?case
  proof (cases "rows i")
    case None
    with Cons show ?thesis by (simp add: runRows_Cons)
  next
    case (Some p)
    from Cons.prems have "students (writeRow sid p st) k \<noteq> None"
      by (rule writeRow_student_kept)
    from Cons.IH [OF this] Cons.prems Some show ?thesis
      by (simp add: runRows_Cons writeRow_idOf_old)
  qed
qed

lemma runRows_attendance_kept:
  "attendances st a \<noteq> None \<Longrightarrow> attendances (runRows sid rows js st) a \<noteq> None"
proof (induction js arbitrary: st)
  case Nil
  then show ?case by simp
next
  case (Cons i js)
  show ?case
  proof (cases "rows i")
    case None
    with Cons show ?thesis by (simp add: runRows_Cons)
  next
    case (Some p)
    from Cons.prems have "attendances (writeRow sid p st) a \<noteq> None"
      by (rule writeRow_attendance_kept)
    from Cons.IH [OF this] Some show ?thesis by (simp add: runRows_Cons)
  qed
qed

lemma runRows_covered: "covered sid rows js (runRows sid rows js st)"
proof (induction js arbitrary: st)
  case Nil
  then show ?case by (simp add: covered_def)
next
  case (Cons i js)
  let ?st1 = "case rows i of None \<Rightarrow> st | Some p \<Rightarrow> writeRow sid p st"
  let ?t = "runRows sid rows js ?st1"
  have t: "runRows sid rows (i # js) st = ?t" by (simp add: runRows_Cons)
  have tail: "covered sid rows js ?t" by (rule Cons.IH)
  have head: "students ?t (p_studentEmail p) \<noteq> None
              \<and> attendances ?t (sid, idOf ?t (p_studentEmail p)) \<noteq> None" if p: "rows i = Some p" for p
  proof -
    from p have s1: "?st1 = writeRow sid p st" by simp
    from writeRow_covers [of sid p st]
    have c: "students ?st1 (p_studentEmail p) \<noteq> None"
      "attendances ?st1 (sid, idOf ?st1 (p_studentEmail p)) \<noteq> None"
      unfolding s1 by simp_all
    from runRows_student_kept [OF c(1), of sid rows js] runRows_attendance_kept [OF c(2), of sid rows js]
    show ?thesis by simp
  qed
  show ?case
    unfolding t using tail head by (auto simp: covered_def)
qed

lemma runRows_name_frame:
  "students st k = Some x \<Longrightarrow> lastName rows js k = None
   \<Longrightarrow> students (runRows sid rows js st) k = Some x"
proof (induction js arbitrary: st)
  case Nil
  then show ?case by simp
next
  case (Cons i js)
  from Cons.prems(2) have l: "lastName rows js k = None"
    by (simp split: option.splits)
  show ?case
  proof (cases "rows i")
    case None
    with Cons.IH [OF Cons.prems(1) l] show ?thesis by (simp add: runRows_Cons)
  next
    case (Some p)
    from Cons.prems(2) Some l have n: "p_studentEmail p = k \<Longrightarrow> p_name p = None"
      by (simp split: if_splits)
    have "students (writeRow sid p st) k = Some x"
      using Cons.prems(1) n by (auto simp: writeRow_students setName_def)
    from Cons.IH [OF this l] Some show ?thesis by (simp add: runRows_Cons)
  qed
qed

lemma runRows_attendance_frame:
  "lastRow sid (idOf (runRows sid rows js st)) rows js a = None
   \<Longrightarrow> attendances (runRows sid rows js st) a = attendances st a"
proof (induction js arbitrary: st)
  case Nil
  then show ?case by simp
next
  case (Cons i js)
  show ?case
  proof (cases "rows i")
    case None
    with Cons show ?thesis by (simp add: runRows_Cons split: option.splits)
  next
    case (Some p)
    let ?st1 = "writeRow sid p st"
    let ?t = "runRows sid rows js ?st1"
    have t: "runRows sid rows (i # js) st = ?t" using Some by (simp add: runRows_Cons)
    from Cons.prems have l: "lastRow sid (idOf ?t) rows js a = None"
      and d: "(sid, idOf ?t (p_studentEmail p)) \<noteq> a"
      unfolding t using Some by (simp_all split: option.splits if_splits)
    have "idOf ?t (p_studentEmail p) = idOf ?st1 (p_studentEmail p)"
      using runRows_student_kept writeRow_covers by blast
    with d have "attendances ?st1 a = attendances st a"
      by (auto simp: writeRow_attendances)
    with Cons.IH [OF l] show ?thesis by (simp add: t)
  qed
qed

lemma runRows_last_name:
  "lastName rows js k = Some n
   \<Longrightarrow> \<exists>x. students (runRows sid rows js st) k = Some x \<and> name x = Some n"
proof (induction js arbitrary: st)
  case Nil
  then show ?case by simp
next
  case (Cons i js)
  show ?case
  proof (cases "lastName rows js k")
    case (Some m)
    with Cons.prems have "m = n" by simp
    with Some Cons.IH show ?thesis by (simp add: runRows_Cons)
  next
    case None
    with Cons.prems obtain p where p: "rows i = Some p" "p_studentEmail p = k" "p_name p = Some n"
      by (auto split: option.splits if_splits)
    obtain x where x: "students (writeRow sid p st) k = Some x" "name x = Some n"
      using p by (auto simp: writeRow_students setName_def split: option.splits)
    from runRows_name_frame [OF x(1) None] x(2) p(1) show ?thesis
      by (simp add: runRows_Cons)
  qed
qed

lemma setFields_idem: "setFields p (setFields q a) = setFields p a"
  by (simp add: setFields_def)

lemma runRows_last_row:
  "lastRow sid (idOf (runRows sid rows js st)) rows js a = Some q
   \<Longrightarrow> \<exists>y. attendances (runRows sid rows js st) a = Some y \<and> setFields q y = y"
proof (induction js arbitrary: st)
  case Nil
  then show ?case by simp
next
  case (Cons i js)
  show ?case
  proof (cases "rows i")
    case None
    with Cons show ?thesis by (simp add: runRows_Cons split: option.splits)
  next
    case (Some p)
    let ?st1 = "writeRow sid p st"
    let ?t = "runRows sid rows js ?st1"
    have t: "runRows sid rows (i # js) st = ?t" using Some by (simp add: runRows_Cons)
    show ?thesis
    proof (cases "lastRow sid (idOf ?t) rows js a")
      case (Some q')
      with Cons.prems have "q' = q" unfolding t by simp
      with Some Cons.IH [of ?st1] show ?thesis by (simp add: t)
    next
      case None
      with Cons.prems \<open>rows i = Some p\<close> have a: "(sid, idOf ?t (p_studentEmail p)) = a" and q: "q = p"
        unfolding t by (simp_all split: if_splits)
      have "idOf ?t (p_studentEmail p) = idOf ?st1 (p_studentEmail p)"
        using runRows_student_kept writeRow_covers by blast
      with a have a1: "a = (sid, idOf ?st1 (p_studentEmail p))" by simp
      have "\<exists>y. attendances ?st1 a = Some y \<and> setFields p y = y"
        unfolding a1 by (simp add: writeRow_attendances setFields_def split: option.splits)
      with runRows_attendance_frame [OF None] q show ?thesis by (simp add: t)
    qed
  qed
qed

section \<open>A second pass over the same lines\<close>

lemma runRows_frame:
  "modules (runRows sid rows js st) = modules st \<and> sessions (runRows sid rows js st) = sessions st"
proof (induction js arbitrary: st)
  case Nil
  then show ?case by simp
next
  case (Cons i js)
  then show ?case
    by (cases "rows i") (simp_all add: runRows_Cons writeRow_frame)
qed

lemma setName_setName:
  "setName m (setName n s) = setName (case m of Some x \<Rightarrow> Some x | None \<Rightarrow> n) s"
  by (simp add: setName_def split: option.splits)

lemma idOf_setName: "student_id (setName n s) = student_id s"
  by (simp add: setName_def split: option.splits)

text \<open>When every line has its rows already, the pass only overwrites.\<close>

lemma runRows_update_only:
  "covered sid rows js u \<Longrightarrow>
     nextId (runRows sid rows js u) = nextId u
     \<and> students (runRows sid rows js u)
         = (\<lambda>k. map_option (setName (lastName rows js k)) (students u k))
     \<and> attendances (runRows sid rows js u)
         = (\<lambda>a. case lastRow sid (idOf u) rows js a of
                  None \<Rightarrow> attendances u a
                | Some p \<Rightarrow> map_option (setFields p) (attendances u a))"
proof (induction js arbitrary: u)
  case Nil
  show ?case
    by (simp add: setName_def option.map_ident)
next
  case (Cons i js)
  show ?case
  proof (cases "rows i")
    case None
    from Cons.prems have "covered sid rows js u" by (simp add: covered_def)
    moreover have "lastName rows (i # js) = lastName rows js"
      by (rule ext) (simp add: None split: option.splits)
    moreover have "lastRow sid (idOf u) rows (i # js) = lastRow sid (idOf u) rows js"
      by (rule ext) (simp add: None split: option.splits)
    moreover have "runRows sid rows (i # js) u = runRows sid rows js u"
      by (simp add: runRows_Cons None)
    ultimately show ?thesis
      using Cons.IH [of u] by simp
  next
    case (Some p)
    let ?k = "p_studentEmail p"
    let ?u1 = "writeRow sid p u"
    from Cons.prems Some obtain s y where s: "students u ?k = Some s"
      and y: "attendances u (sid, idOf u ?k) = Some y"
      by (auto simp: covered_def)
    have st1: "students ?u1 = (students u)(?k \<mapsto> setName (p_name p) s)"
      by (simp add: writeRow_students s)
    have id1: "idOf ?u1 = idOf u"
      by (rule ext) (simp add: idOf_def st1 s idOf_setName)
    have at1: "attendances ?u1 = (attendances u)((sid, idOf u ?k) \<mapsto> setFields p y)"
      by (simp add: writeRow_attendances id1 y)
    have n1: "nextId ?u1 = nextId u"
      by (rule writeRow_nextId) (simp_all add: s y)
    have c1: "covered sid rows js ?u1"
      using Cons.prems by (auto simp: covered_def id1 st1 at1)
    note ih = Cons.IH [OF c1]
    have r: "runRows sid rows (i # js) u = runRows sid rows js ?u1"
      using Some by (simp add: runRows_Cons)
    have a: "nextId (runRows sid rows (i # js) u) = nextId u"
      using ih n1 by (simp add: r)
    have b: "students (runRows sid rows (i # js) u) k
               = map_option (setName (lastName rows (i # js) k)) (students u k)" for k
      using ih Some s
      by (simp add: r st1 setName_setName split: option.splits)
    have c: "attendances (runRows sid rows (i # js) u) a
               = (case lastRow sid (idOf u) rows (i # js) a of
                    None \<Rightarrow> attendances u a
                  | Some p \<Rightarrow> map_option (setFields p) (attendances u a))" for a
      using ih Some y
      by (auto simp: r id1 at1 setFields_idem split: option.splits)
    from a b c show ?thesis by auto
  qed
qed

lemma setName_None: "setName None = (\<lambda>s. s)"
  by (rule ext) (simp add: setName_def)

lemma setName_same: "name x = n \<Longrightarrow> setName n x = x"
  by (simp add: setName_def split: option.splits)

theorem runRows_twice: "runRows sid rows js (runRows sid rows js st) = runRows sid rows js st"
proof -
  let ?t = "runRows sid rows js st"
  note u = runRows_update_only [OF runRows_covered, of sid rows js st]
  have s: "students (runRows sid rows js ?t) = students ?t"
  proof (rule ext)
    fix k
    show "students (runRows sid rows js ?t) k = students ?t k"
    proof (cases "lastName rows js k")
      case None
      with u show ?thesis by (simp add: setName_None option.map_ident)
    next
      case (Some n)
      from runRows_last_name [OF Some, of sid st] obtain x where
        "students ?t k = Some x" "name x = Some n" by blast
      with u Some show ?thesis by (simp add: setName_same)
    qed
  qed
  have a: "attendances (runRows sid rows js ?t) = attendances ?t"
  proof (rule ext)
    fix a
    show "attendances (runRows sid rows js ?t) a = attendances ?t a"
    proof (cases "lastRow sid (idOf ?t) rows js a")
      case None
      with u show ?thesis by simp
    next
      case (Some q)
      from runRows_last_row [OF Some] obtain y where
        "attendances ?t a = Some y" "setFields q y = y" by blast
      with u Some show ?thesis by simp
    qed
  qed
  show ?thesis
    by (rule store.equality) (simp_all add: s a u runRows_frame)
qed

end
